theory Spec2Isabelle
  imports Main
begin

section \<open>hetvec: a heterogeneous vector with pairwise dispatch\<close>

text \<open>
  The C++ class template \<^verbatim>\<open>hetvec<Ts...>\<close> of \<^verbatim>\<open>hetvec.hpp\<close> is a chain of classes:
  \<^verbatim>\<open>hetvec<T, Ts...>\<close> derives from \<^verbatim>\<open>hetvec<Ts...>\<close> and owns one
  \<^verbatim>\<open>std::vector<T> v\<close>; \<^verbatim>\<open>hetvec<>\<close> ends the chain. The static types of the
  program are values of a type \<open>'t\<close> here, and what C++ overload resolution decides on
  static types is decided by comparing these values. A C++ object of static type \<open>T\<close> is a
  pair \<open>(T, x)\<close> of its type and its contents.
\<close>

subsection \<open>Data\<close>

type_synonym ('t, 'a) obj = "'t \<times> 'a"

datatype ('t, 'a) hetvec =
    HetvecNil
  | Hetvec 't "'a list" "('t, 'a) hetvec"

text \<open>
  \<open>Hetvec T v base\<close> is an object of class \<^verbatim>\<open>hetvec<T, Ts...>\<close>: its member \<^verbatim>\<open>v\<close> and
  its base-class subobject of class \<^verbatim>\<open>hetvec<Ts...>\<close>. The members of \<^verbatim>\<open>hetvec<>\<close> are
  all protected, so they run as the last step of a member of a derived class only.

  The visitor \<^verbatim>\<open>Fcns\<close> is a class with an overloaded const member \<^verbatim>\<open>f\<close>; which overload
  \<^verbatim>\<open>fcns.f(a1, a2)\<close> runs depends on the static types of both arguments only. The visitor
  is passed by const reference and its handlers receive const references, so what a handler
  does is an effect on the world outside the collection (in \<^verbatim>\<open>example.cpp\<close>, the standard
  output): a function on a world state \<open>'w\<close>.
\<close>

type_synonym ('t, 'a, 'w) Fcns = "('t, 'a) obj \<Rightarrow> ('t, 'a) obj \<Rightarrow> 'w \<Rightarrow> 'w"

type_synonym ('t, 'a) call = "('t, 'a) obj \<times> ('t, 'a) obj"

subsection \<open>The two overloads of \<^verbatim>\<open>hetvec<>::f\<close>\<close>

text \<open>
  \<^verbatim>\<open>
  template<typename T, typename U, typename Fcns>
  void f(const T& a1, const U& a2, const Fcns& fcns) { fcns.f(a1, a2); fcns.f(a2, a1); }
  template<typename T, typename Fcns>
  void f(const T& a1, const T& a2, const Fcns& fcns) { fcns.f(a1, a2); }
  \<close>
  Both templates match two arguments of one type, and the second, more specialised one is
  chosen then; for arguments of two types only the first matches. The two overloads
  together are \<open>hetvec_f\<close>.
\<close>

definition hetvec_f :: "('t, 'a) obj \<Rightarrow> ('t, 'a) obj \<Rightarrow> ('t, 'a, 'w) Fcns \<Rightarrow> 'w \<Rightarrow> 'w" where
  "hetvec_f a1 a2 fcns w =
     (if fst a1 = fst a2 then fcns a1 a2 w
      else fcns a2 a1 (fcns a1 a2 w))"

subsection \<open>Forwarding one element: \<^verbatim>\<open>perform(const U& u, const Fcns& fcns)\<close>\<close>

text \<open>
  \<^verbatim>\<open>
  void perform(const U& u, const Fcns& fcns) {
    std::for_each(v.begin(), v.end(),
                  [this, &u, &fcns](const T& t) { hetvec<Ts...>::f(t, u, fcns); });
    hetvec<Ts...>::perform(u, fcns);
  }
  \<close>
  A non-const member function: it takes the object and the world and returns both. In
  \<^verbatim>\<open>hetvec<>\<close> the body is empty. This overload of \<^verbatim>\<open>perform\<close> is \<open>perform_elem\<close>.
\<close>

fun perform_elem ::
  "('t, 'a) obj \<Rightarrow> ('t, 'a, 'w) Fcns \<Rightarrow> ('t, 'a) hetvec \<times> 'w \<Rightarrow> ('t, 'a) hetvec \<times> 'w" where
  "perform_elem u fcns (HetvecNil, w) = (HetvecNil, w)"
| "perform_elem u fcns (Hetvec T v base, w) =
     (let w1 = fold (\<lambda>t. hetvec_f (T, t) u fcns) v w;
          (base1, w2) = perform_elem u fcns (base, w1)
      in (Hetvec T v base1, w2))"

subsection \<open>The traversal: \<^verbatim>\<open>perform(const Fcns& fcns)\<close>\<close>

text \<open>
  \<^verbatim>\<open>
  for(size_t i = 0; i < v.size(); i++) {
    for(size_t j = i+1; j < v.size(); j++) {
      hetvec<Ts...>::f(v[i], v[j], fcns);
    }
  }
  \<close>
  The two loops, each a recursive function on its index. The indices are \<^verbatim>\<open>size_t\<close>; they
  stay at most \<^verbatim>\<open>v.size()\<close>, which is at most \<^verbatim>\<open>v.max_size()\<close>, so they never wrap and
  are natural numbers here.
\<close>

function perform_inner ::
  "'t \<Rightarrow> 'a list \<Rightarrow> nat \<Rightarrow> nat \<Rightarrow> ('t, 'a, 'w) Fcns \<Rightarrow> 'w \<Rightarrow> 'w" where
  "perform_inner T v i j fcns w =
     (if j < length v
      then perform_inner T v i (j + 1) fcns (hetvec_f (T, v ! i) (T, v ! j) fcns w)
      else w)"
  by pat_completeness auto
termination
  by (relation "measure (\<lambda>(T, v, i, j, fcns, w). length v - j)") auto

function perform_outer ::
  "'t \<Rightarrow> 'a list \<Rightarrow> nat \<Rightarrow> ('t, 'a, 'w) Fcns \<Rightarrow> 'w \<Rightarrow> 'w" where
  "perform_outer T v i fcns w =
     (if i < length v
      then perform_outer T v (i + 1) fcns (perform_inner T v i (i + 1) fcns w)
      else w)"
  by pat_completeness auto
termination
  by (relation "measure (\<lambda>(T, v, i, fcns, w). length v - i)") auto

declare perform_inner.simps [simp del] perform_outer.simps [simp del]

text \<open>
  Forwarding an element hands the object back as it was; the traversal below recurses on
  the base-class subobject that the forwarding loop returns, and terminates for that reason.
\<close>

lemma perform_elem_fst: "fst (perform_elem u fcns (hv, w)) = hv"
proof (induction hv arbitrary: w)
  case HetvecNil
  show ?case by simp
next
  case (Hetvec T v base)
  show ?case
    using Hetvec.IH [of "fold (\<lambda>t. hetvec_f (T, t) u fcns) v w"]
    by (auto simp: Let_def split: prod.splits)
qed

lemma fold_perform_elem_fst:
  "fst (fold (\<lambda>t. perform_elem (T, t) fcns) v (hv, w)) = hv"
proof (induction v arbitrary: w)
  case Nil
  show ?case by simp
next
  case (Cons t v)
  obtain w' where "perform_elem (T, t) fcns (hv, w) = (hv, w')"
    using perform_elem_fst [of "(T, t)" fcns hv w] by (cases "perform_elem (T, t) fcns (hv, w)") simp
  then show ?case using Cons.IH by simp
qed

lemma fold_perform_elem_base:
  "(base1, w2) = fold (\<lambda>t. perform_elem (T, t) fcns) v (base, w1) \<Longrightarrow> base1 = base"
  using fold_perform_elem_fst [of T fcns v base w1] by (metis fst_conv)

text \<open>
  \<^verbatim>\<open>
  void perform(const Fcns& fcns = Fcns()) {
    /* the two loops above */
    std::for_each(v.begin(), v.end(),
                  [this, &fcns](const T& t) { hetvec<Ts...>::perform(t, fcns); });
    hetvec<Ts...>::perform(fcns);
  }
  \<close>
  In \<^verbatim>\<open>hetvec<>\<close> the body is empty.
\<close>

function perform ::
  "('t, 'a, 'w) Fcns \<Rightarrow> ('t, 'a) hetvec \<times> 'w \<Rightarrow> ('t, 'a) hetvec \<times> 'w" where
  "perform fcns (HetvecNil, w) = (HetvecNil, w)"
| "perform fcns (Hetvec T v base, w) =
     (let w1 = perform_outer T v 0 fcns w;
          (base1, w2) = fold (\<lambda>t. perform_elem (T, t) fcns) v (base, w1);
          (base2, w3) = perform fcns (base1, w2)
      in (Hetvec T v base2, w3))"
  by pat_completeness auto
termination
proof (relation "measure (\<lambda>(fcns, hv, w). size hv)", goal_cases)
  case 1
  show ?case by simp
next
  case (2 fcns T v base w w1 p base1 w2)
  then have "base1 = base"
    using fold_perform_elem_base [of base1 w2 T fcns v base w1] by simp
  then show ?case by simp
qed

subsection \<open>Size, clear, empty\<close>

text \<open>
  \<^verbatim>\<open>
  size_t size() const { return v.size() + hetvec<Ts...>::size(); }   // hetvec<>: return 0;
  void clear() { v.clear(); hetvec<Ts...>::clear(); }                // hetvec<>: { }
  bool empty() const { return size() == 0; }
  \<close>
  Here \<^verbatim>\<open>size\<close> is \<open>size_hv\<close> and \<^verbatim>\<open>empty\<close> is \<open>empty_hv\<close>. The sum is a \<^verbatim>\<open>size_t\<close>. Every stored element occupies at least one byte of the
  address space that \<^verbatim>\<open>size_t\<close> spans, so the sum of the vector sizes cannot wrap, and
  it is a natural number here.
\<close>

fun size_hv :: "('t, 'a) hetvec \<Rightarrow> nat" where
  "size_hv HetvecNil = 0"
| "size_hv (Hetvec T v base) = length v + size_hv base"

fun clear :: "('t, 'a) hetvec \<Rightarrow> ('t, 'a) hetvec" where
  "clear HetvecNil = HetvecNil"
| "clear (Hetvec T v base) = Hetvec T [] (clear base)"

definition empty_hv :: "('t, 'a) hetvec \<Rightarrow> bool" where
  "empty_hv hv = (size_hv hv = 0)"

subsection \<open>Insertion\<close>

text \<open>
  \<^verbatim>\<open>
  template<typename U> void push_back(const U& u) { hetvec<Ts...>::push_back(u); }
  void push_back(const T& t) { v.push_back(t); }
  \<close>
  and the same pair of overloads for \<^verbatim>\<open>const U&&\<close> and \<^verbatim>\<open>const T&&\<close>, with the same
  bodies up to \<^verbatim>\<open>std::move\<close> of a const reference, which copies. For an argument of
  type \<open>T\<close> the non-template overload is chosen; for any other type only the template is
  an exact match, and it hands the argument to the base class. \<^verbatim>\<open>hetvec<>\<close> declares no
  \<^verbatim>\<open>push_back\<close>: a call that reaches it does not compile, which is the result \<open>None\<close>.
\<close>

fun push_back :: "('t, 'a) obj \<Rightarrow> ('t, 'a) hetvec \<Rightarrow> ('t, 'a) hetvec option" where
  "push_back u HetvecNil = None"
| "push_back u (Hetvec T v base) =
     (if fst u = T then Some (Hetvec T (v @ [snd u]) base)
      else (case push_back u base of
              None \<Rightarrow> None
            | Some base1 \<Rightarrow> Some (Hetvec T v base1)))"

text \<open>A program that calls \<^verbatim>\<open>push_back\<close> once for each element of a list, in order.\<close>

fun push_back_all :: "('t, 'a) obj list \<Rightarrow> ('t, 'a) hetvec \<Rightarrow> ('t, 'a) hetvec option" where
  "push_back_all [] hv = Some hv"
| "push_back_all (u # us) hv =
     (case push_back u hv of
        None \<Rightarrow> None
      | Some hv1 \<Rightarrow> push_back_all us hv1)"

subsection \<open>Construction\<close>

text \<open>
  \<^verbatim>\<open>
  explicit hetvec() { }
  template<typename... Us>
  explicit hetvec(const T& t, const Us& ...us) : hetvec<T, Ts...>(us...) { v.push_back(t); }
  template<typename... Us>
  explicit hetvec(const Us& ...us) : hetvec<Ts...>(us...) { }
  \<close>
  and the same two templates for \<^verbatim>\<open>const T&&\<close> and \<^verbatim>\<open>const Us&&\<close>. With no argument the
  non-template default constructor is chosen, and every vector starts empty. With a first
  argument of type \<open>T\<close> the second constructor is the more specialised match: it delegates
  to the same class with the remaining arguments, and its body appends \<^verbatim>\<open>t\<close> after the
  delegate has returned. With a first argument of another type only the third matches: it
  leaves \<^verbatim>\<open>v\<close> empty and hands every argument to the base class. \<^verbatim>\<open>hetvec<>\<close> has no
  constructor that takes an argument: a construction that reaches it with arguments does
  not compile, which is the result \<open>None\<close>. The statement \<^verbatim>\<open>v.push_back(t)\<close> of the
  constructor body is \<open>v_push_back\<close>; it runs in a class that has the member \<^verbatim>\<open>v\<close>, so
  its equation for \<^verbatim>\<open>hetvec<>\<close> is never reached.
\<close>

fun hetvec_default :: "'t list \<Rightarrow> ('t, 'a) hetvec" where
  "hetvec_default [] = HetvecNil"
| "hetvec_default (T # Ts) = Hetvec T [] (hetvec_default Ts)"

fun v_push_back :: "'a \<Rightarrow> ('t, 'a) hetvec \<Rightarrow> ('t, 'a) hetvec" where
  "v_push_back x (Hetvec T v base) = Hetvec T (v @ [x]) base"
| "v_push_back x HetvecNil = HetvecNil"

fun hetvec_ctor :: "'t list \<Rightarrow> ('t, 'a) obj list \<Rightarrow> ('t, 'a) hetvec option" where
  "hetvec_ctor Ts [] = Some (hetvec_default Ts)"
| "hetvec_ctor [] (u # us) = None"
| "hetvec_ctor (T # Ts) (u # us) =
     (if fst u = T
      then (case hetvec_ctor (T # Ts) us of
              None \<Rightarrow> None
            | Some hv \<Rightarrow> Some (v_push_back (snd u) hv))
      else (case hetvec_ctor Ts (u # us) of
              None \<Rightarrow> None
            | Some base \<Rightarrow> Some (Hetvec T [] base)))"

subsection \<open>The example program\<close>

text \<open>
  \<^verbatim>\<open>example.cpp\<close>: four empty structs, a visitor with three handlers and a generic
  fallback that does nothing, and \<^verbatim>\<open>main\<close>. The world is the standard output, a list of
  the strings printed, one for each \<^verbatim>\<open>printf\<close>.
\<close>

datatype ty = Dog | Car | Foo | Bar

fun MyCustomBehaviour :: "(ty, unit, string list) Fcns" where
  "MyCustomBehaviour (Dog, a) (Dog, b) out = out @ [''Two dogs are barking!\<newline>'']"
| "MyCustomBehaviour (Dog, a) (Car, b) out = out @ [''A car hit the dog, oh no!\<newline>'']"
| "MyCustomBehaviour (Bar, a) (Foo, b) out = out @ [''Foobar!\<newline>'']"
| "MyCustomBehaviour t u out = out"

definition main :: "string list option" where
  "main =
     (case hetvec_ctor [Dog, Car, Foo, Bar] [(Dog, ()), (Dog, ()), (Car, ()), (Bar, ())] of
        None \<Rightarrow> None
      | Some hv0 \<Rightarrow>
          (case push_back (Foo, ()) hv0 of
             None \<Rightarrow> None
           | Some hv1 \<Rightarrow>
               (let (hv2, out1) = perform MyCustomBehaviour (hv1, []);
                    hv3 = clear hv2;
                    out2 = (if empty_hv hv3 then out1 @ [''hv is empty!\<newline>''] else out1);
                    (hv4, out3) = perform MyCustomBehaviour (hv3, out2)
                in Some out3)))"

subsection \<open>Observing a collection and a traversal\<close>

text \<open>
  The declared types of a collection and its partitions, in declared order; and a visitor
  that, besides running the handlers of \<open>fcns\<close>, appends every invocation
  \<^verbatim>\<open>fcns.f(a1, a2)\<close> to a log.
\<close>

fun types :: "('t, 'a) hetvec \<Rightarrow> 't list" where
  "types HetvecNil = []"
| "types (Hetvec T v base) = T # types base"

fun partitions :: "('t, 'a) hetvec \<Rightarrow> ('t \<times> 'a list) list" where
  "partitions HetvecNil = []"
| "partitions (Hetvec T v base) = (T, v) # partitions base"

definition traced :: "('t, 'a, 'w) Fcns \<Rightarrow> ('t, 'a, 'w \<times> ('t, 'a) call list) Fcns" where
  "traced fcns a1 a2 s = (fcns a1 a2 (fst s), snd s @ [(a1, a2)])"

definition invocations :: "('t, 'a, 'w) Fcns \<Rightarrow> ('t, 'a) hetvec \<Rightarrow> 'w \<Rightarrow> ('t, 'a) call list" where
  "invocations fcns hv w = snd (snd (perform (traced fcns) (hv, (w, []))))"

subsection \<open>The invocations of a traversal, as a list\<close>

text \<open>
  Running a list of invocations against a visitor, and the lists of invocations that the
  member functions above make: \<open>f_calls\<close> for \<^verbatim>\<open>hetvec<>::f\<close>, \<open>elem_calls\<close> for
  forwarding one element, \<open>same_calls\<close> for the two nested loops and \<open>all_calls\<close> for the
  traversal. They are proved below to be what the member functions do.
\<close>

definition run_calls :: "('t, 'a, 'w) Fcns \<Rightarrow> ('t, 'a) call list \<Rightarrow> 'w \<Rightarrow> 'w" where
  "run_calls fcns cs w = fold (\<lambda>c. fcns (fst c) (snd c)) cs w"

definition f_calls :: "('t, 'a) obj \<Rightarrow> ('t, 'a) obj \<Rightarrow> ('t, 'a) call list" where
  "f_calls a1 a2 = (if fst a1 = fst a2 then [(a1, a2)] else [(a1, a2), (a2, a1)])"

fun elem_calls :: "('t, 'a) obj \<Rightarrow> ('t, 'a) hetvec \<Rightarrow> ('t, 'a) call list" where
  "elem_calls u HetvecNil = []"
| "elem_calls u (Hetvec T v base) = concat (map (\<lambda>t. f_calls (T, t) u) v) @ elem_calls u base"

definition same_calls :: "'t \<Rightarrow> 'a list \<Rightarrow> ('t, 'a) call list" where
  "same_calls T v =
     concat (map (\<lambda>i. map (\<lambda>j. ((T, v ! i), (T, v ! j))) [i + 1..<length v]) [0..<length v])"

fun all_calls :: "('t, 'a) hetvec \<Rightarrow> ('t, 'a) call list" where
  "all_calls HetvecNil = []"
| "all_calls (Hetvec T v base) =
     same_calls T v @ concat (map (\<lambda>t. elem_calls (T, t) base) v) @ all_calls base"

subsection \<open>Reading the invocations\<close>

text \<open>
  The static types of the two arguments of an invocation, which are what selects the
  handler; the elements stored for one type; the order of the declared types; and the shape
  of a list of invocations in which the invocations on two different types come in couples:
  one with the argument of the later declared type first, and directly after it the one
  with the two arguments swapped.
\<close>

definition type_pair :: "('t, 'a) call \<Rightarrow> 't \<times> 't" where
  "type_pair c = (fst (fst c), fst (snd c))"

fun elems_of :: "'t \<Rightarrow> ('t, 'a) hetvec \<Rightarrow> 'a list" where
  "elems_of A HetvecNil = []"
| "elems_of A (Hetvec T v base) = (if T = A then v @ elems_of A base else elems_of A base)"

fun before :: "'t list \<Rightarrow> 't \<Rightarrow> 't \<Rightarrow> bool" where
  "before [] A B = False"
| "before (T # Ts) A B = ((T = A \<and> B \<in> set Ts) \<or> before Ts A B)"

fun paired :: "'t list \<Rightarrow> ('t, 'a) call list \<Rightarrow> bool" where
  "paired Ts [] = True"
| "paired Ts [c] = (fst (fst c) = fst (snd c))"
| "paired Ts (c # d # cs) =
     (if fst (fst c) = fst (snd c) then paired Ts (d # cs)
      else d = (snd c, fst c) \<and> before Ts (fst (snd c)) (fst (fst c)) \<and> paired Ts cs)"

section \<open>The traversal runs a fixed list of invocations\<close>

lemma run_calls_Nil [simp]: "run_calls fcns [] w = w"
  by (simp add: run_calls_def)

lemma run_calls_Cons [simp]: "run_calls fcns (c # cs) w = run_calls fcns cs (fcns (fst c) (snd c) w)"
  by (simp add: run_calls_def)

lemma run_calls_append [simp]:
  "run_calls fcns (cs @ ds) w = run_calls fcns ds (run_calls fcns cs w)"
  by (simp add: run_calls_def)

lemma hetvec_f_run: "hetvec_f a1 a2 fcns w = run_calls fcns (f_calls a1 a2) w"
  by (simp add: hetvec_f_def f_calls_def)

lemma fold_hetvec_f_run:
  "fold (\<lambda>t. hetvec_f (T, t) u fcns) v w = run_calls fcns (concat (map (\<lambda>t. f_calls (T, t) u) v)) w"
  by (induction v arbitrary: w) (simp_all add: hetvec_f_run)

lemma perform_elem_run: "perform_elem u fcns (hv, w) = (hv, run_calls fcns (elem_calls u hv) w)"
  by (induction hv arbitrary: w) (simp_all add: fold_hetvec_f_run)

lemma fold_perform_elem_run:
  "fold (\<lambda>t. perform_elem (T, t) fcns) v (hv, w) =
     (hv, run_calls fcns (concat (map (\<lambda>t. elem_calls (T, t) hv) v)) w)"
  by (induction v arbitrary: w) (simp_all add: perform_elem_run)

lemma perform_inner_run:
  "perform_inner T v i j fcns w =
     run_calls fcns (map (\<lambda>j. ((T, v ! i), (T, v ! j))) [j..<length v]) w"
proof (induction T v i j fcns w rule: perform_inner.induct)
  case (1 T v i j fcns w)
  show ?case
  proof (cases "j < length v")
    case True
    then have "[j..<length v] = j # [j + 1..<length v]"
      by (simp add: upt_conv_Cons)
    with True "1.IH" show ?thesis
      by (subst perform_inner.simps) (simp add: hetvec_f_def)
  next
    case False
    then show ?thesis by (subst perform_inner.simps) simp
  qed
qed

lemma perform_outer_run:
  "perform_outer T v i fcns w =
     run_calls fcns
       (concat (map (\<lambda>i. map (\<lambda>j. ((T, v ! i), (T, v ! j))) [i + 1..<length v]) [i..<length v])) w"
proof (induction T v i fcns w rule: perform_outer.induct)
  case (1 T v i fcns w)
  show ?case
  proof (cases "i < length v")
    case True
    then have "[i..<length v] = i # [i + 1..<length v]"
      by (simp add: upt_conv_Cons)
    with True "1.IH" show ?thesis
      by (subst perform_outer.simps) (simp add: perform_inner_run)
  next
    case False
    then show ?thesis by (subst perform_outer.simps) simp
  qed
qed

lemma perform_run: "perform fcns (hv, w) = (hv, run_calls fcns (all_calls hv) w)"
  by (induction hv arbitrary: w)
    (simp_all add: perform_outer_run fold_perform_elem_run same_calls_def)

lemma run_calls_traced:
  "run_calls (traced fcns) cs (w, tr) = (run_calls fcns cs w, tr @ cs)"
  by (induction cs arbitrary: w tr) (simp_all add: traced_def)

lemma invocations_all_calls: "invocations fcns hv w = all_calls hv"
  by (simp add: invocations_def perform_run run_calls_traced)

section \<open>Size, insertion, clearing and construction\<close>

lemma types_partitions: "types hv = map fst (partitions hv)"
  by (induction hv) simp_all

lemma size_hv_partitions: "size_hv hv = sum_list (map (\<lambda>p. length (snd p)) (partitions hv))"
  by (induction hv) simp_all

lemma types_default [simp]: "types (hetvec_default Ts) = Ts"
  by (induction Ts) simp_all

lemma size_hv_default [simp]: "size_hv (hetvec_default Ts) = 0"
  by (induction Ts) simp_all

lemma partitions_default: "partitions (hetvec_default Ts) = map (\<lambda>T. (T, [])) Ts"
  by (induction Ts) simp_all

lemma push_back_size: "push_back u hv = Some hv' \<Longrightarrow> size_hv hv' = size_hv hv + 1"
  by (induction hv arbitrary: hv') (auto split: if_splits option.splits)

lemma push_back_types: "push_back u hv = Some hv' \<Longrightarrow> types hv' = types hv"
  by (induction hv arbitrary: hv') (auto split: if_splits option.splits)

lemma push_back_declared: "fst u \<in> set (types hv) \<Longrightarrow> \<exists>hv'. push_back u hv = Some hv'"
  by (induction hv) auto

lemma push_back_all_size:
  "push_back_all us hv = Some hv' \<Longrightarrow> size_hv hv' = size_hv hv + length us"
proof (induction us arbitrary: hv)
  case Nil
  then show ?case by simp
next
  case (Cons u us)
  then obtain hv1 where 1: "push_back u hv = Some hv1" and 2: "push_back_all us hv1 = Some hv'"
    by (auto split: option.splits)
  show ?case using push_back_size [OF 1] Cons.IH [OF 2] by simp
qed

lemma push_back_all_declared:
  "fst ` set us \<subseteq> set (types hv) \<Longrightarrow> \<exists>hv'. push_back_all us hv = Some hv'"
proof (induction us arbitrary: hv)
  case Nil
  show ?case by simp
next
  case (Cons u us)
  then have "fst u \<in> set (types hv)" by simp
  then obtain hv1 where 1: "push_back u hv = Some hv1"
    using push_back_declared by blast
  have "fst ` set us \<subseteq> set (types hv1)"
    using Cons.prems push_back_types [OF 1] by simp
  then show ?case using Cons.IH 1 by simp
qed

lemma push_back_at:
  assumes "distinct (types hv)" and "i < length (partitions hv)" and "partitions hv ! i = (T, P)"
  shows "\<exists>hv'. push_back (T, x) hv = Some hv' \<and> partitions hv' = (partitions hv)[i := (T, P @ [x])]"
  using assms
proof (induction hv arbitrary: i)
  case HetvecNil
  then show ?case by simp
next
  case (Hetvec T' v base)
  show ?case
  proof (cases i)
    case 0
    with Hetvec.prems show ?thesis by simp
  next
    case (Suc k)
    with Hetvec.prems have k: "k < length (partitions base)" "partitions base ! k = (T, P)"
      by simp_all
    then have "T \<in> set (types base)"
      by (metis fst_conv length_map nth_map nth_mem types_partitions)
    with Hetvec.prems have "T' \<noteq> T" by auto
    moreover obtain b' where "push_back (T, x) base = Some b'"
      "partitions b' = (partitions base)[k := (T, P @ [x])]"
      using Hetvec.IH [OF _ k] Hetvec.prems(1) by auto
    ultimately show ?thesis using Suc by simp
  qed
qed

lemma clear_default: "clear hv = hetvec_default (types hv)"
  by (induction hv) simp_all

lemma all_calls_default [simp]: "all_calls (hetvec_default Ts) = []"
  by (induction Ts) (simp_all add: same_calls_def)

lemma hetvec_ctor_types: "hetvec_ctor Ts us = Some hv \<Longrightarrow> types hv = Ts"
proof (induction Ts us arbitrary: hv rule: hetvec_ctor.induct)
  case (1 Ts)
  then show ?case by auto
next
  case (2 u us)
  then show ?case by simp
next
  case (3 T Ts u us)
  show ?case
  proof (cases "fst u = T")
    case True
    with "3.prems" obtain hv0 where 0: "hetvec_ctor (T # Ts) us = Some hv0"
      and hv: "hv = v_push_back (snd u) hv0"
      by (auto split: option.splits)
    have "types hv0 = T # Ts" using "3.IH"(1) [OF True 0] .
    then show ?thesis using hv by (cases hv0) simp_all
  next
    case False
    with "3.prems" obtain b where 0: "hetvec_ctor Ts (u # us) = Some b"
      and hv: "hv = Hetvec T [] b"
      by (auto split: option.splits)
    show ?thesis using "3.IH"(2) [OF False 0] hv by simp
  qed
qed

lemma hetvec_ctor_declared: "hetvec_ctor Ts us = Some hv \<Longrightarrow> fst ` set us \<subseteq> set Ts"
proof (induction Ts us arbitrary: hv rule: hetvec_ctor.induct)
  case (1 Ts)
  then show ?case by simp
next
  case (2 u us)
  then show ?case by simp
next
  case (3 T Ts u us)
  show ?case
  proof (cases "fst u = T")
    case True
    with "3.prems" obtain hv0 where 0: "hetvec_ctor (T # Ts) us = Some hv0"
      by (auto split: option.splits)
    show ?thesis using "3.IH"(1) [OF True 0] True by simp
  next
    case False
    with "3.prems" obtain b where 0: "hetvec_ctor Ts (u # us) = Some b"
      by (auto split: option.splits)
    show ?thesis using "3.IH"(2) [OF False 0] by auto
  qed
qed

lemma push_back_all_append:
  "push_back_all (us @ [u]) hv =
     (case push_back_all us hv of None \<Rightarrow> None | Some hv1 \<Rightarrow> push_back u hv1)"
  by (induction us arbitrary: hv) (simp_all split: option.splits)

lemma push_back_all_skip:
  "T \<notin> fst ` set us \<Longrightarrow>
   push_back_all us (Hetvec T v base) =
     (case push_back_all us base of None \<Rightarrow> None | Some base1 \<Rightarrow> Some (Hetvec T v base1))"
  by (induction us arbitrary: base) (auto split: option.splits)

lemma hetvec_ctor_push_back_rev:
  "distinct Ts \<Longrightarrow> hetvec_ctor Ts us = Some hv \<Longrightarrow>
   push_back_all (rev us) (hetvec_default Ts) = Some hv"
proof (induction Ts us arbitrary: hv rule: hetvec_ctor.induct)
  case (1 Ts)
  then show ?case by simp
next
  case (2 u us)
  then show ?case by simp
next
  case (3 T Ts u us)
  show ?case
  proof (cases "fst u = T")
    case True
    with "3.prems" obtain hv0 where 0: "hetvec_ctor (T # Ts) us = Some hv0"
      and hv: "hv = v_push_back (snd u) hv0"
      by (auto split: option.splits)
    have 1: "push_back_all (rev us) (hetvec_default (T # Ts)) = Some hv0"
      using "3.IH"(1) [OF True "3.prems"(1) 0] .
    obtain v b where hv0: "hv0 = Hetvec T v b"
      using hetvec_ctor_types [OF 0] by (cases hv0) simp_all
    show ?thesis
      using 1 hv hv0 True by (simp add: push_back_all_append del: hetvec_default.simps)
  next
    case False
    with "3.prems" obtain b where 0: "hetvec_ctor Ts (u # us) = Some b"
      and hv: "hv = Hetvec T [] b"
      by (auto split: option.splits)
    have 1: "push_back_all (rev (u # us)) (hetvec_default Ts) = Some b"
      using "3.IH"(2) [OF False _ 0] "3.prems"(1) by simp
    have "T \<notin> fst ` set (rev (u # us))"
      using hetvec_ctor_declared [OF 0] "3.prems"(1) by auto
    from push_back_all_skip [OF this, of "[]" "hetvec_default Ts"] 1 hv
    show ?thesis by simp
  qed
qed

lemma push_back_partitions:
  "distinct (types hv) \<Longrightarrow> push_back u hv = Some hv' \<Longrightarrow>
   partitions hv' = map (\<lambda>p. (fst p, if fst p = fst u then snd p @ [snd u] else snd p)) (partitions hv)"
proof (induction hv arbitrary: hv')
  case HetvecNil
  then show ?case by simp
next
  case (Hetvec T v base)
  show ?case
  proof (cases "fst u = T")
    case True
    then have "\<forall>p \<in> set (partitions base). fst p \<noteq> fst u"
      using Hetvec.prems(1) by (force simp: types_partitions)
    then have "map (\<lambda>p. (fst p, if fst p = fst u then snd p @ [snd u] else snd p)) (partitions base)
        = partitions base"
      by (simp add: map_idI)
    with True Hetvec.prems show ?thesis by auto
  next
    case False
    with Hetvec.prems obtain b' where 0: "push_back u base = Some b'" and hv': "hv' = Hetvec T v b'"
      by (auto split: option.splits)
    show ?thesis using Hetvec.IH [OF _ 0] Hetvec.prems(1) hv' False by auto
  qed
qed

lemma push_back_all_partitions:
  "distinct (types hv) \<Longrightarrow> push_back_all us hv = Some hv' \<Longrightarrow>
   partitions hv' = map (\<lambda>p. (fst p, snd p @ map snd (filter (\<lambda>u. fst u = fst p) us))) (partitions hv)"
proof (induction us arbitrary: hv)
  case Nil
  then show ?case by (simp add: map_idI)
next
  case (Cons u us)
  then obtain hv1 where 1: "push_back u hv = Some hv1" and 2: "push_back_all us hv1 = Some hv'"
    by (auto split: option.splits)
  have d: "distinct (types hv1)" using push_back_types [OF 1] Cons.prems(1) by simp
  show ?case
    using Cons.IH [OF d 2] push_back_partitions [OF Cons.prems(1) 1]
    by (simp add: comp_def)
qed

subsection \<open>Which initial elements the constructors accept\<close>

lemma concat_replicate_0: "concat (map2 replicate (replicate (length Ts) 0) Ts) = []"
  by (induction Ts) simp_all

lemma hetvec_ctor_grouped:
  "hetvec_ctor Ts us = Some hv \<Longrightarrow>
   \<exists>ns. length ns = length Ts \<and> map fst us = concat (map2 replicate ns Ts)"
proof (induction Ts us arbitrary: hv rule: hetvec_ctor.induct)
  case (1 Ts)
  have "length (replicate (length Ts) (0 :: nat)) = length Ts
      \<and> map fst [] = concat (map2 replicate (replicate (length Ts) 0) Ts)"
    by (simp add: concat_replicate_0)
  then show ?case by blast
next
  case (2 u us)
  then show ?case by simp
next
  case (3 T Ts u us)
  show ?case
  proof (cases "fst u = T")
    case True
    with "3.prems" obtain hv0 where "hetvec_ctor (T # Ts) us = Some hv0"
      by (auto split: option.splits)
    from "3.IH"(1) [OF True this] obtain ns where
      ns: "length ns = length (T # Ts)" "map fst us = concat (map2 replicate ns (T # Ts))"
      by blast
    then obtain n ns' where "ns = n # ns'" by (cases ns) auto
    with ns True have "length (Suc n # ns') = length (T # Ts)
        \<and> map fst (u # us) = concat (map2 replicate (Suc n # ns') (T # Ts))"
      by simp
    then show ?thesis by blast
  next
    case False
    with "3.prems" obtain b where "hetvec_ctor Ts (u # us) = Some b"
      by (auto split: option.splits)
    from "3.IH"(2) [OF False this] obtain ns where
      "length ns = length Ts" "map fst (u # us) = concat (map2 replicate ns Ts)"
      by blast
    then have "length (0 # ns) = length (T # Ts)
        \<and> map fst (u # us) = concat (map2 replicate (0 # ns) (T # Ts))"
      by simp
    then show ?thesis by blast
  qed
qed

lemma hetvec_ctor_add_level:
  fixes us :: "('t, 'a) obj list"
  assumes tl: "\<forall>(u :: ('t, 'a) obj) r. hetvec_ctor Ts (u # r) \<noteq> None \<longrightarrow> hetvec_ctor Ts r \<noteq> None"
  shows "hetvec_ctor Ts us \<noteq> None \<Longrightarrow> hetvec_ctor (T # Ts) us \<noteq> None"
proof (induction us)
  case Nil
  show ?case by simp
next
  case (Cons u r)
  show ?case
  proof (cases "fst u = T")
    case True
    have "hetvec_ctor (T # Ts) r \<noteq> None"
      using Cons.IH tl Cons.prems by blast
    with True show ?thesis by auto
  next
    case False
    with Cons.prems show ?thesis by auto
  qed
qed

lemma hetvec_ctor_tail: "hetvec_ctor Ts (u # r) \<noteq> None \<Longrightarrow> hetvec_ctor Ts r \<noteq> None"
proof (induction Ts arbitrary: u r)
  case Nil
  then show ?case by simp
next
  case (Cons T Ts)
  show ?case
  proof (cases "fst u = T")
    case True
    with Cons.prems show ?thesis by (auto split: option.splits)
  next
    case False
    with Cons.prems have "hetvec_ctor Ts (u # r) \<noteq> None"
      by (auto split: option.splits)
    then have "hetvec_ctor Ts r \<noteq> None" by (rule Cons.IH)
    then show ?thesis using hetvec_ctor_add_level [of Ts r T] Cons.IH by blast
  qed
qed

lemma hetvec_ctor_leading:
  "\<forall>u \<in> set us1. fst u = T \<Longrightarrow> hetvec_ctor Ts us2 \<noteq> None \<Longrightarrow>
   hetvec_ctor (T # Ts) (us1 @ us2) \<noteq> None"
proof (induction us1)
  case Nil
  have "hetvec_ctor (T # Ts) us2 \<noteq> None"
    using Nil.prems(2) hetvec_ctor_add_level [of Ts us2 T] hetvec_ctor_tail by blast
  then show ?case by simp
next
  case (Cons u us1)
  then have "hetvec_ctor (T # Ts) (us1 @ us2) \<noteq> None" and "fst u = T" by simp_all
  then show ?case by auto
qed

lemma hetvec_ctor_accepts_grouped:
  "length ns = length Ts \<Longrightarrow> map fst us = concat (map2 replicate ns Ts) \<Longrightarrow>
   hetvec_ctor Ts us \<noteq> None"
proof (induction Ts arbitrary: ns us)
  case Nil
  then show ?case by simp
next
  case (Cons T Ts)
  then obtain n ns' where ns: "ns = n # ns'" "length ns' = length Ts" by (cases ns) auto
  with Cons.prems have "map fst us = replicate n T @ concat (map2 replicate ns' Ts)"
    by simp
  then obtain us1 us2 where us: "us = us1 @ us2" "map fst us1 = replicate n T"
    "map fst us2 = concat (map2 replicate ns' Ts)"
    by (auto simp: map_eq_append_conv)
  have "\<forall>u \<in> set us1. fst u = T"
  proof
    fix u assume "u \<in> set us1"
    then have "fst u \<in> set (map fst us1)" by simp
    then show "fst u = T" unfolding us(2) by simp
  qed
  moreover have "hetvec_ctor Ts us2 \<noteq> None"
    using Cons.IH [OF ns(2) us(3)] .
  ultimately show ?case unfolding us(1) by (rule hetvec_ctor_leading)
qed

lemma hetvec_ctor_accepts_iff:
  "(\<exists>hv. hetvec_ctor Ts us = Some hv) \<longleftrightarrow>
   (\<exists>ns. length ns = length Ts \<and> map fst us = concat (map2 replicate ns Ts))"
  using hetvec_ctor_grouped [of Ts us] hetvec_ctor_accepts_grouped [of _ Ts us] by auto

section \<open>The invocations of one pair of types\<close>

lemma elems_of_undeclared: "A \<notin> set (types hv) \<Longrightarrow> elems_of A hv = []"
  by (induction hv) auto

lemma partition_declared:
  "i < length (partitions hv) \<Longrightarrow> partitions hv ! i = (T, P) \<Longrightarrow> T \<in> set (types hv)"
  by (metis fst_conv length_map nth_map nth_mem types_partitions)

lemma elems_of_partition:
  "distinct (types hv) \<Longrightarrow> i < length (partitions hv) \<Longrightarrow> partitions hv ! i = (T, P) \<Longrightarrow>
   elems_of T hv = P"
proof (induction hv arbitrary: i)
  case HetvecNil
  then show ?case by simp
next
  case (Hetvec T' v base)
  show ?case
  proof (cases i)
    case 0
    with Hetvec.prems show ?thesis by (simp add: elems_of_undeclared)
  next
    case (Suc k)
    with Hetvec.prems have k: "k < length (partitions base)" "partitions base ! k = (T, P)"
      by simp_all
    have "T' \<noteq> T" using partition_declared [OF k] Hetvec.prems(1) by auto
    then show ?thesis using Hetvec.IH [OF _ k] Hetvec.prems(1) by simp
  qed
qed

subsection \<open>The types of the invocations\<close>

lemma f_calls_elem: "c \<in> set (f_calls a u) \<Longrightarrow> c = (a, u) \<or> c = (u, a)"
  by (auto simp: f_calls_def split: if_splits)

lemma elem_calls_types:
  "c \<in> set (elem_calls u hv) \<Longrightarrow>
   (fst (fst c) \<in> set (types hv) \<and> snd c = u) \<or> (fst c = u \<and> fst (snd c) \<in> set (types hv))"
proof (induction hv)
  case HetvecNil
  then show ?case by simp
next
  case (Hetvec T v base)
  from Hetvec.prems consider t where "t \<in> set v" "c \<in> set (f_calls (T, t) u)"
    | "c \<in> set (elem_calls u base)"
    by auto
  then show ?case
  proof cases
    case 1
    then show ?thesis using f_calls_elem [of c "(T, t)" u] by auto
  next
    case 2
    then show ?thesis using Hetvec.IH by auto
  qed
qed

lemma same_calls_types: "c \<in> set (same_calls T v) \<Longrightarrow> type_pair c = (T, T)"
  by (auto simp: same_calls_def type_pair_def)

lemma all_calls_types:
  "c \<in> set (all_calls hv) \<Longrightarrow> fst (fst c) \<in> set (types hv) \<and> fst (snd c) \<in> set (types hv)"
proof (induction hv)
  case HetvecNil
  then show ?case by simp
next
  case (Hetvec T v base)
  from Hetvec.prems consider "c \<in> set (same_calls T v)"
    | t where "t \<in> set v" "c \<in> set (elem_calls (T, t) base)"
    | "c \<in> set (all_calls base)"
    by auto
  then show ?case
  proof cases
    case 1
    then show ?thesis using same_calls_types [of c T v] by (simp add: type_pair_def)
  next
    case 2
    then show ?thesis using elem_calls_types [of c "(T, t)" base] by auto
  next
    case 3
    then show ?thesis using Hetvec.IH by simp
  qed
qed

subsection \<open>Selecting the invocations of one pair of types\<close>

lemma filter_empty_types:
  "(\<And>c. c \<in> set cs \<Longrightarrow> type_pair c \<noteq> AB) \<Longrightarrow> filter (\<lambda>c. type_pair c = AB) cs = []"
  by (induction cs) auto

lemma filter_all_types:
  "(\<And>c. c \<in> set cs \<Longrightarrow> type_pair c = AB) \<Longrightarrow> filter (\<lambda>c. type_pair c = AB) cs = cs"
  by (induction cs) auto

lemma filter_f_calls_fwd:
  "T \<noteq> A \<Longrightarrow> filter (\<lambda>c. type_pair c = (A, B)) (f_calls (T, x) (A, t)) =
     (if T = B then [((A, t), (T, x))] else [])"
  by (cases "T = B") (simp_all add: f_calls_def type_pair_def)

lemma filter_f_calls_bwd:
  "T \<noteq> A \<Longrightarrow> filter (\<lambda>c. type_pair c = (B, A)) (f_calls (T, x) (A, t)) =
     (if T = B then [((T, x), (A, t))] else [])"
  by (cases "T = B") (simp_all add: f_calls_def type_pair_def)

lemma concat_map_singleton: "concat (map (\<lambda>x. [g x]) xs) = map g xs"
  by (induction xs) simp_all

lemma concat_map_Nil: "concat (map (\<lambda>x. []) xs) = []"
  by (induction xs) simp_all

lemma filter_elem_calls_fwd:
  "A \<notin> set (types hv) \<Longrightarrow>
   filter (\<lambda>c. type_pair c = (A, B)) (elem_calls (A, t) hv) =
     map (\<lambda>x. ((A, t), (B, x))) (elems_of B hv)"
proof (induction hv)
  case HetvecNil
  show ?case by simp
next
  case (Hetvec T v base)
  then have "T \<noteq> A" and "A \<notin> set (types base)" by auto
  then show ?case
    using Hetvec.IH
    by (simp add: filter_concat comp_def filter_f_calls_fwd concat_map_singleton concat_map_Nil)
qed

lemma filter_elem_calls_bwd:
  "A \<notin> set (types hv) \<Longrightarrow>
   filter (\<lambda>c. type_pair c = (B, A)) (elem_calls (A, t) hv) =
     map (\<lambda>x. ((B, x), (A, t))) (elems_of B hv)"
proof (induction hv)
  case HetvecNil
  show ?case by simp
next
  case (Hetvec T v base)
  then have "T \<noteq> A" and "A \<notin> set (types base)" by auto
  then show ?case
    using Hetvec.IH
    by (simp add: filter_concat comp_def filter_f_calls_bwd concat_map_singleton concat_map_Nil)
qed

lemma filter_elem_calls_other:
  assumes "C \<noteq> A" and "D \<noteq> A"
  shows "filter (\<lambda>c. type_pair c = (C, D)) (elem_calls (A, t) hv) = []"
proof (rule filter_empty_types)
  fix c assume "c \<in> set (elem_calls (A, t) hv)"
  then have "snd c = (A, t) \<or> fst c = (A, t)"
    using elem_calls_types [of c "(A, t)" hv] by auto
  then show "type_pair c \<noteq> (C, D)"
    using assms by (auto simp: type_pair_def)
qed

lemma filter_all_calls_undeclared:
  assumes "A \<notin> set (types hv) \<or> B \<notin> set (types hv)"
  shows "filter (\<lambda>c. type_pair c = (A, B)) (all_calls hv) = []"
proof (rule filter_empty_types)
  fix c assume "c \<in> set (all_calls hv)"
  then show "type_pair c \<noteq> (A, B)"
    using all_calls_types [of c hv] assms by (auto simp: type_pair_def)
qed

lemma filter_same_calls_other:
  "(A, B) \<noteq> (T, T) \<Longrightarrow> filter (\<lambda>c. type_pair c = (A, B)) (same_calls T v) = []"
  by (rule filter_empty_types) (use same_calls_types in fastforce)

lemma filter_same_calls_same:
  "filter (\<lambda>c. type_pair c = (T, T)) (same_calls T v) = same_calls T v"
  by (rule filter_all_types) (rule same_calls_types)

lemma filter_all_calls_cross:
  assumes "distinct (types hv)" and "i < j" and "j < length (partitions hv)"
    and "partitions hv ! i = (A, Pi)" and "partitions hv ! j = (B, Pj)"
  shows "filter (\<lambda>c. type_pair c = (A, B)) (all_calls hv) =
           concat (map (\<lambda>u. map (\<lambda>x. ((A, u), (B, x))) Pj) Pi)
       \<and> filter (\<lambda>c. type_pair c = (B, A)) (all_calls hv) =
           concat (map (\<lambda>u. map (\<lambda>x. ((B, x), (A, u))) Pj) Pi)"
  using assms
proof (induction hv arbitrary: i j)
  case HetvecNil
  then show ?case by simp
next
  case (Hetvec T v base)
  from Hetvec.prems obtain k where j: "j = Suc k" by (cases j) auto
  with Hetvec.prems have k: "k < length (partitions base)" "partitions base ! k = (B, Pj)"
    by simp_all
  have B: "B \<in> set (types base)" using partition_declared [OF k] .
  have T: "T \<notin> set (types base)" and d: "distinct (types base)"
    using Hetvec.prems(1) by simp_all
  have TB: "T \<noteq> B" using B T by auto
  show ?case
  proof (cases i)
    case 0
    with Hetvec.prems have A: "A = T" "Pi = v" by simp_all
    have Pj: "elems_of B base = Pj" using elems_of_partition [OF d k] .
    have 1: "filter (\<lambda>c. type_pair c = (T, B)) (same_calls T v) = []"
      and 2: "filter (\<lambda>c. type_pair c = (B, T)) (same_calls T v) = []"
      using TB by (simp_all add: filter_same_calls_other)
    have 3: "filter (\<lambda>c. type_pair c = (T, B)) (all_calls base) = []"
      and 4: "filter (\<lambda>c. type_pair c = (B, T)) (all_calls base) = []"
      using T by (simp_all add: filter_all_calls_undeclared)
    show ?thesis
      unfolding A
      by (simp add: 1 2 3 4 filter_concat comp_def
          filter_elem_calls_fwd [OF T] filter_elem_calls_bwd [OF T] Pj)
  next
    case (Suc l)
    with Hetvec.prems j have l: "l < k" "partitions base ! l = (A, Pi)"
      by simp_all
    have "l < length (partitions base)" using l k by simp
    then have "A \<in> set (types base)" using partition_declared [OF _ l(2)] by simp
    then have TA: "T \<noteq> A" using T by auto
    have 1: "filter (\<lambda>c. type_pair c = (A, B)) (same_calls T v) = []"
      and 2: "filter (\<lambda>c. type_pair c = (B, A)) (same_calls T v) = []"
      using TB TA by (simp_all add: filter_same_calls_other)
    have 3: "\<And>t. filter (\<lambda>c. type_pair c = (A, B)) (elem_calls (T, t) base) = []"
      and 4: "\<And>t. filter (\<lambda>c. type_pair c = (B, A)) (elem_calls (T, t) base) = []"
      using TA TB by (simp_all add: filter_elem_calls_other)
    show ?thesis
      using Hetvec.IH [OF d l(1) k(1) l(2) k(2)]
      by (simp add: 1 2 3 4 filter_concat comp_def concat_map_Nil)
  qed
qed

lemma filter_all_calls_same:
  assumes "distinct (types hv)" and "i < length (partitions hv)" and "partitions hv ! i = (A, P)"
  shows "filter (\<lambda>c. type_pair c = (A, A)) (all_calls hv) = same_calls A P"
  using assms
proof (induction hv arbitrary: i)
  case HetvecNil
  then show ?case by simp
next
  case (Hetvec T v base)
  have T: "T \<notin> set (types base)" and d: "distinct (types base)"
    using Hetvec.prems(1) by simp_all
  show ?case
  proof (cases i)
    case 0
    with Hetvec.prems have A: "A = T" "P = v" by simp_all
    have 1: "\<And>t. filter (\<lambda>c. type_pair c = (T, T)) (elem_calls (T, t) base) = []"
      using filter_elem_calls_fwd [OF T, of T] by (simp add: elems_of_undeclared [OF T])
    have 2: "filter (\<lambda>c. type_pair c = (T, T)) (all_calls base) = []"
      using T by (simp add: filter_all_calls_undeclared)
    show ?thesis
      unfolding A
      by (simp add: 1 2 filter_same_calls_same filter_concat comp_def concat_map_Nil)
  next
    case (Suc k)
    with Hetvec.prems have k: "k < length (partitions base)" "partitions base ! k = (A, P)"
      by simp_all
    have TA: "T \<noteq> A" using partition_declared [OF k] T by auto
    have 1: "filter (\<lambda>c. type_pair c = (A, A)) (same_calls T v) = []"
      using TA by (simp add: filter_same_calls_other)
    have 2: "\<And>t. filter (\<lambda>c. type_pair c = (A, A)) (elem_calls (T, t) base) = []"
      using TA by (simp add: filter_elem_calls_other)
    show ?thesis
      using Hetvec.IH [OF d k]
      by (simp add: 1 2 filter_concat comp_def concat_map_Nil)
  qed
qed

lemma upt_0_Suc_map: "[0..<Suc n] = 0 # map Suc [0..<n]"
proof -
  have "[0..<Suc n] = 0 # [Suc 0..<Suc n]" by (rule upt_conv_Cons) simp
  then show ?thesis by (simp only: map_Suc_upt)
qed

lemma same_calls_Cons:
  "same_calls T (x # xs) = map (\<lambda>y. ((T, x), (T, y))) xs @ same_calls T xs"
proof -
  have 1: "[0..<length (x # xs)] = 0 # map Suc [0..<length xs]"
    by (simp only: length_Cons upt_0_Suc_map)
  have 2: "\<And>i. [Suc i + 1..<length (x # xs)] = map Suc [i + 1..<length xs]"
    by (simp only: map_Suc_upt length_Cons add_Suc)
  have 3: "map (\<lambda>j. ((T, (x # xs) ! 0), (T, (x # xs) ! j))) [0 + 1..<length (x # xs)]
      = map (\<lambda>y. ((T, x), (T, y))) xs"
  proof -
    have "[0 + 1..<length (x # xs)] = map Suc [0..<length xs]"
      by (simp only: map_Suc_upt length_Cons add_0 One_nat_def)
    then have "map (\<lambda>j. ((T, (x # xs) ! 0), (T, (x # xs) ! j))) [0 + 1..<length (x # xs)]
      = map (\<lambda>j. ((T, x), (T, xs ! j))) [0..<length xs]"
      by (simp add: comp_def)
    also have "\<dots> = map (\<lambda>y. ((T, x), (T, y))) (map (\<lambda>j. xs ! j) [0..<length xs])"
      by (simp add: comp_def)
    also have "\<dots> = map (\<lambda>y. ((T, x), (T, y))) xs"
      by (simp add: map_nth)
    finally show ?thesis .
  qed
  have "same_calls T (x # xs) =
      map (\<lambda>j. ((T, (x # xs) ! 0), (T, (x # xs) ! j))) [0 + 1..<length (x # xs)]
      @ concat (map (\<lambda>i. map (\<lambda>j. ((T, (x # xs) ! Suc i), (T, (x # xs) ! j)))
                   [Suc i + 1..<length (x # xs)]) [0..<length xs])"
    unfolding same_calls_def 1 by (simp only: list.map concat.simps map_map comp_def)
  also have "\<dots> = map (\<lambda>y. ((T, x), (T, y))) xs
      @ concat (map (\<lambda>i. map (\<lambda>j. ((T, xs ! i), (T, xs ! j))) [i + 1..<length xs]) [0..<length xs])"
    unfolding 2 3 by (simp add: comp_def)
  finally show ?thesis by (simp add: same_calls_def)
qed

lemma length_same_calls: "length (same_calls T v) = length v choose 2"
proof (induction v)
  case Nil
  show ?case by (simp add: same_calls_def)
next
  case (Cons x xs)
  have "Suc (length xs) choose 2 = length xs + (length xs choose 2)"
    by (simp add: numeral_2_eq_2)
  then show ?case using Cons.IH by (simp add: same_calls_Cons)
qed

lemma map_product_concat:
  "map (\<lambda>(u, x). g u x) (List.product xs ys) = concat (map (\<lambda>u. map (\<lambda>x. g u x) ys) xs)"
  by (induction xs) (simp_all add: comp_def)

lemma length_filter_disjoint:
  "(\<And>c. c \<in> set cs \<Longrightarrow> \<not> (P c \<and> Q c)) \<Longrightarrow>
   length (filter (\<lambda>c. P c \<or> Q c) cs) = length (filter P cs) + length (filter Q cs)"
  by (induction cs) auto

lemma count_list_filter: "count_list (filter P cs) c = (if P c then count_list cs c else 0)"
  by (induction cs) auto

lemma count_list_map_inj: "inj f \<Longrightarrow> count_list (map f xs) (f a) = count_list xs a"
  by (induction xs) (auto dest: injD)

lemma count_list_product:
  "count_list (List.product xs ys) (a, b) = count_list xs a * count_list ys b"
proof (induction xs)
  case Nil
  show ?case by simp
next
  case (Cons x xs)
  have "count_list (map (Pair x) ys) (a, b) = (if x = a then count_list ys b else 0)"
    by (induction ys) auto
  with Cons.IH show ?case by simp
qed

lemma count_list_distinct: "distinct cs \<Longrightarrow> c \<in> set cs \<Longrightarrow> count_list cs c = 1"
  by (induction cs) auto

lemma same_calls_Nil [simp]: "same_calls T [] = []"
  by (simp add: same_calls_def)

lemma same_calls_elem:
  "c \<in> set (same_calls T v) \<Longrightarrow> \<exists>a b. a < b \<and> b < length v \<and> c = ((T, v ! a), (T, v ! b))"
proof (induction v)
  case Nil
  then show ?case by simp
next
  case (Cons x xs)
  from Cons.prems consider y where "y \<in> set xs" "c = ((T, x), (T, y))"
    | "c \<in> set (same_calls T xs)"
    by (auto simp: same_calls_Cons)
  then show ?case
  proof cases
    case 1
    then obtain k where "k < length xs" "xs ! k = y" by (auto simp: in_set_conv_nth)
    with 1 have "0 < Suc k \<and> Suc k < length (x # xs)
        \<and> c = ((T, (x # xs) ! 0), (T, (x # xs) ! Suc k))"
      by simp
    then show ?thesis by blast
  next
    case 2
    then obtain a b where "a < b" "b < length xs" "c = ((T, xs ! a), (T, xs ! b))"
      using Cons.IH by blast
    then have "Suc a < Suc b \<and> Suc b < length (x # xs)
        \<and> c = ((T, (x # xs) ! Suc a), (T, (x # xs) ! Suc b))"
      by simp
    then show ?thesis by blast
  qed
qed

lemma same_calls_member:
  "a < b \<Longrightarrow> b < length v \<Longrightarrow> ((T, v ! a), (T, v ! b)) \<in> set (same_calls T v)"
proof (induction v arbitrary: a b)
  case Nil
  then show ?case by simp
next
  case (Cons x xs)
  from Cons.prems obtain k where b: "b = Suc k" "k < length xs" by (cases b) auto
  show ?case
  proof (cases a)
    case 0
    with b show ?thesis by (simp add: same_calls_Cons)
  next
    case (Suc l)
    with b Cons.prems have "l < k" by simp
    from Cons.IH [OF this b(2)] Suc b show ?thesis by (simp add: same_calls_Cons)
  qed
qed

lemma same_calls_within:
  "c \<in> set (same_calls T v) \<Longrightarrow> snd (fst c) \<in> set v \<and> snd (snd c) \<in> set v"
  using same_calls_elem [of c T v] by auto

lemma distinct_same_calls: "distinct v \<Longrightarrow> distinct (same_calls T v)"
proof (induction v)
  case Nil
  show ?case by simp
next
  case (Cons x xs)
  have "distinct (map (\<lambda>y. ((T, x), (T, y))) xs)"
    using Cons.prems by (simp add: distinct_map inj_on_def)
  moreover have "set (map (\<lambda>y. ((T, x), (T, y))) xs) \<inter> set (same_calls T xs) = {}"
    using Cons.prems same_calls_within [of _ T xs] by fastforce
  ultimately show ?case using Cons by (simp add: same_calls_Cons)
qed

lemma same_calls_not_mirrored:
  assumes "distinct v" and "a < b" and "b < length v"
  shows "((T, v ! b), (T, v ! a)) \<notin> set (same_calls T v)"
proof
  assume "((T, v ! b), (T, v ! a)) \<in> set (same_calls T v)"
  then obtain a' b' where "a' < b'" "b' < length v" "v ! b = v ! a'" "v ! a = v ! b'"
    using same_calls_elem [of "((T, v ! b), (T, v ! a))" T v] by auto
  then have "b = a'" and "a = b'"
    using assms by (simp_all add: nth_eq_iff_index_eq)
  with \<open>a' < b'\<close> \<open>a < b\<close> show False by simp
qed

section \<open>Mirrored invocations come in couples\<close>

lemma before_declared: "before Ts A B \<Longrightarrow> A \<in> set Ts \<and> B \<in> set Ts"
  by (induction Ts) auto

lemma before_irrefl: "distinct Ts \<Longrightarrow> \<not> before Ts A A"
  by (induction Ts) auto

lemma before_asym: "distinct Ts \<Longrightarrow> before Ts A B \<Longrightarrow> \<not> before Ts B A"
  by (induction Ts) (auto dest: before_declared)

lemma before_nth: "i < j \<Longrightarrow> j < length Ts \<Longrightarrow> before Ts (Ts ! i) (Ts ! j)"
proof (induction Ts arbitrary: i j)
  case Nil
  then show ?case by simp
next
  case (Cons T Ts)
  from Cons.prems obtain k where j: "j = Suc k" "k < length Ts" by (cases j) auto
  show ?case
  proof (cases i)
    case 0
    with j show ?thesis by simp
  next
    case (Suc l)
    with j Cons.prems have "l < k" by simp
    from Cons.IH [OF this j(2)] Suc j show ?thesis by simp
  qed
qed

lemma paired_append: "paired Ts cs \<Longrightarrow> paired Ts ds \<Longrightarrow> paired Ts (cs @ ds)"
proof (induction Ts cs rule: paired.induct)
  case (1 Ts)
  then show ?case by simp
next
  case (2 Ts c)
  then show ?case by (cases ds) simp_all
next
  case (3 Ts c d cs)
  show ?case
  proof (cases "fst (fst c) = fst (snd c)")
    case True
    with 3 have "paired Ts ((d # cs) @ ds)" by simp
    with True show ?thesis by simp
  next
    case False
    with 3 have "paired Ts (cs @ ds)" by simp
    with False "3.prems"(1) show ?thesis by simp
  qed
qed

lemma paired_concat: "(\<And>cs. cs \<in> set css \<Longrightarrow> paired Ts cs) \<Longrightarrow> paired Ts (concat css)"
  by (induction css) (simp_all add: paired_append)

lemma paired_Cons_types: "paired Ts cs \<Longrightarrow> paired (T # Ts) cs"
  by (induction Ts cs rule: paired.induct) (auto split: if_splits)

lemma paired_same_types:
  "(\<And>c. c \<in> set cs \<Longrightarrow> fst (fst c) = fst (snd c)) \<Longrightarrow> paired Ts cs"
  by (induction Ts cs rule: paired.induct) simp_all

lemma paired_same_calls: "paired Ts (same_calls T v)"
  by (rule paired_same_types) (use same_calls_types in \<open>fastforce simp: type_pair_def\<close>)

lemma paired_elem_calls:
  "T \<notin> set (types hv) \<Longrightarrow> set (types hv) \<subseteq> set Ts \<Longrightarrow>
   paired (T # Ts) (elem_calls (T, t) hv)"
proof (induction hv)
  case HetvecNil
  show ?case by simp
next
  case (Hetvec T' v base)
  then have ne: "T' \<noteq> T" and T': "T' \<in> set Ts" by auto
  have "paired (T # Ts) (f_calls (T', x) (T, t))" for x
    using ne T' by (simp add: f_calls_def)
  then have "paired (T # Ts) (concat (map (\<lambda>x. f_calls (T', x) (T, t)) v))"
    by (intro paired_concat) auto
  moreover have "paired (T # Ts) (elem_calls (T, t) base)"
    using Hetvec by simp
  ultimately show ?case by (simp add: paired_append)
qed

lemma paired_all_calls: "distinct (types hv) \<Longrightarrow> paired (types hv) (all_calls hv)"
proof (induction hv)
  case HetvecNil
  show ?case by simp
next
  case (Hetvec T v base)
  then have T: "T \<notin> set (types base)" and d: "distinct (types base)" by simp_all
  have 1: "paired (T # types base) (same_calls T v)"
    by (rule paired_same_calls)
  have "paired (T # types base) (elem_calls (T, t) base)" for t
    using paired_elem_calls [OF T subset_refl] .
  then have 2: "paired (T # types base) (concat (map (\<lambda>t. elem_calls (T, t) base) v))"
    by (intro paired_concat) auto
  have 3: "paired (T # types base) (all_calls base)"
    using Hetvec.IH [OF d] by (rule paired_Cons_types)
  from 1 2 3 show ?case by (simp add: paired_append)
qed

lemma paired_later_first:
  "paired Ts cs \<Longrightarrow> distinct Ts \<Longrightarrow> k < length cs \<Longrightarrow>
   before Ts (fst (snd (cs ! k))) (fst (fst (cs ! k))) \<Longrightarrow>
   Suc k < length cs \<and> cs ! Suc k = (snd (cs ! k), fst (cs ! k))"
proof (induction Ts cs arbitrary: k rule: paired.induct)
  case (1 Ts)
  then show ?case by simp
next
  case (2 Ts c)
  then show ?case using before_irrefl [of Ts "fst (snd c)"] by simp
next
  case (3 Ts c d cs)
  show ?case
  proof (cases "fst (fst c) = fst (snd c)")
    case True
    show ?thesis
    proof (cases k)
      case 0
      with True "3.prems" show ?thesis using before_irrefl [of Ts "fst (snd c)"] by simp
    next
      case (Suc l)
      with True "3.prems" "3.IH"(1) [of l] show ?thesis by simp
    qed
  next
    case False
    with "3.prems"(1) have d: "d = (snd c, fst c)"
      and b: "before Ts (fst (snd c)) (fst (fst c))" and p: "paired Ts cs"
      by simp_all
    show ?thesis
    proof (cases k)
      case 0
      then show ?thesis using d by simp
    next
      case (Suc m)
      show ?thesis
      proof (cases m)
        case 0
        with Suc "3.prems"(4) d have "before Ts (fst (fst c)) (fst (snd c))" by simp
        with b before_asym [OF "3.prems"(2)] show ?thesis by blast
      next
        case (Suc n)
        have "n < length cs" using Suc \<open>k = Suc m\<close> "3.prems"(3) by simp
        moreover have "before Ts (fst (snd (cs ! n))) (fst (fst (cs ! n)))"
          using Suc \<open>k = Suc m\<close> "3.prems"(4) by simp
        ultimately have "Suc n < length cs \<and> cs ! Suc n = (snd (cs ! n), fst (cs ! n))"
          using "3.IH"(2) [OF False p "3.prems"(2), of n] by blast
        with Suc \<open>k = Suc m\<close> show ?thesis by simp
      qed
    qed
  qed
qed

lemma paired_earlier_first:
  "paired Ts cs \<Longrightarrow> distinct Ts \<Longrightarrow> k < length cs \<Longrightarrow>
   before Ts (fst (fst (cs ! k))) (fst (snd (cs ! k))) \<Longrightarrow>
   \<exists>l. k = Suc l \<and> cs ! l = (snd (cs ! k), fst (cs ! k))"
proof (induction Ts cs arbitrary: k rule: paired.induct)
  case (1 Ts)
  then show ?case by simp
next
  case (2 Ts c)
  then show ?case using before_irrefl [of Ts "fst (snd c)"] by simp
next
  case (3 Ts c d cs)
  show ?case
  proof (cases "fst (fst c) = fst (snd c)")
    case True
    show ?thesis
    proof (cases k)
      case 0
      with True "3.prems" show ?thesis using before_irrefl [of Ts "fst (snd c)"] by simp
    next
      case (Suc m)
      have "paired Ts (d # cs)" using True "3.prems"(1) by simp
      moreover have "m < length (d # cs)" using Suc "3.prems"(3) by simp
      moreover have "before Ts (fst (fst ((d # cs) ! m))) (fst (snd ((d # cs) ! m)))"
        using Suc "3.prems"(4) by simp
      ultimately obtain l where "m = Suc l" "(d # cs) ! l = (snd ((d # cs) ! m), fst ((d # cs) ! m))"
        using "3.IH"(1) [OF True _ "3.prems"(2), of m] by blast
      with Suc show ?thesis by simp
    qed
  next
    case False
    with "3.prems"(1) have d: "d = (snd c, fst c)"
      and b: "before Ts (fst (snd c)) (fst (fst c))" and p: "paired Ts cs"
      by simp_all
    show ?thesis
    proof (cases k)
      case 0
      with "3.prems"(4) have "before Ts (fst (fst c)) (fst (snd c))" by simp
      with b before_asym [OF "3.prems"(2)] show ?thesis by blast
    next
      case (Suc m)
      show ?thesis
      proof (cases m)
        case 0
        with Suc d show ?thesis by simp
      next
        case (Suc n)
        have "n < length cs" using Suc \<open>k = Suc m\<close> "3.prems"(3) by simp
        moreover have "before Ts (fst (fst (cs ! n))) (fst (snd (cs ! n)))"
          using Suc \<open>k = Suc m\<close> "3.prems"(4) by simp
        ultimately obtain l where "n = Suc l" "cs ! l = (snd (cs ! n), fst (cs ! n))"
          using "3.IH"(2) [OF False p "3.prems"(2), of n] by blast
        with Suc \<open>k = Suc m\<close> show ?thesis by simp
      qed
    qed
  qed
qed

section \<open>Properties\<close>

subsection \<open>Construction and insertion\<close>

text \<open>
  C4, as the code has it. A constructor appends its first argument after the delegate
  constructor has stored the remaining ones, and an argument of a type declared earlier
  than the type of an argument before it reaches \<^verbatim>\<open>hetvec<>\<close> and is not accepted. So
  for distinct declared types and initial elements given in the order of the declared
  types (\<open>n1\<close> of the first type, then \<open>n2\<close> of the second, and so on, any of the
  numbers zero), the construction succeeds, and the constructed collection is the one
  obtained from the default-constructed collection by \<^verbatim>\<open>push_back\<close> of the elements in
  reverse order, last argument first: each element is in the partition of its exact type,
  and each partition holds its elements in the reverse of the argument order.
\<close>

theorem hetvec_ctor_is_push_back_in_reverse:
  assumes "distinct Ts" and "length ns = length Ts"
    and "map fst us = concat (map2 replicate ns Ts)"
  shows "\<exists>hv. hetvec_ctor Ts us = Some hv
           \<and> push_back_all (rev us) (hetvec_default Ts) = Some hv
           \<and> partitions hv = map (\<lambda>T. (T, rev (map snd (filter (\<lambda>u. fst u = T) us)))) Ts"
proof -
  obtain hv where hv: "hetvec_ctor Ts us = Some hv"
    using hetvec_ctor_accepts_grouped [OF assms(2,3)] by auto
  have 1: "push_back_all (rev us) (hetvec_default Ts) = Some hv"
    using hetvec_ctor_push_back_rev [OF assms(1) hv] .
  have "partitions hv = map (\<lambda>T. (T, rev (map snd (filter (\<lambda>u. fst u = T) us)))) Ts"
    using push_back_all_partitions [OF _ 1] assms(1)
    by (simp add: partitions_default comp_def rev_map rev_filter)
  with hv 1 show ?thesis by simp
qed

theorem hetvec_ctor_is_push_back_in_reverse_witness:
  "distinct [Dog, Car, Foo]
   \<and> length [2, 1, 0 :: nat] = length [Dog, Car, Foo]
   \<and> map fst [(Dog, 5 :: nat), (Dog, 6), (Car, 7)] = concat (map2 replicate [2, 1, 0] [Dog, Car, Foo])
   \<and> (\<exists>hv. hetvec_ctor [Dog, Car, Foo] [(Dog, 5 :: nat), (Dog, 6), (Car, 7)] = Some hv
         \<and> push_back_all (rev [(Dog, 5), (Dog, 6), (Car, 7)]) (hetvec_default [Dog, Car, Foo]) = Some hv
         \<and> partitions hv = [(Dog, [6, 5]), (Car, [7]), (Foo, [])])"
proof -
  have h1: "distinct [Dog, Car, Foo]" by simp
  have h2: "length [2, 1, 0 :: nat] = length [Dog, Car, Foo]" by simp
  have h3: "map fst [(Dog, 5 :: nat), (Dog, 6), (Car, 7)]
      = concat (map2 replicate [2, 1, 0] [Dog, Car, Foo])"
    by (simp add: numeral_2_eq_2)
  show ?thesis
    using h1 h2 h3 hetvec_ctor_is_push_back_in_reverse [OF h1 h2 h3] by simp
qed

text \<open>
  C4, as stated, fails. \<^verbatim>\<open>hetvec<Dog>\<close> constructed with the elements 5 and 6 holds 6
  before 5, and the default-constructed collection after \<^verbatim>\<open>push_back\<close> of 5 and then 6
  holds 5 before 6. And \<^verbatim>\<open>hetvec<Dog, Car>\<close> does not accept a Car followed by a Dog as
  initial elements, although \<^verbatim>\<open>push_back\<close> takes them in this order.
\<close>

theorem hetvec_ctor_reverses_counterexample:
  "hetvec_ctor [Dog] [(Dog, 5 :: nat), (Dog, 6)] = Some (Hetvec Dog [6, 5] HetvecNil)
   \<and> push_back_all [(Dog, 5 :: nat), (Dog, 6)] (hetvec_default [Dog])
       = Some (Hetvec Dog [5, 6] HetvecNil)
   \<and> hetvec_ctor [Dog] [(Dog, 5 :: nat), (Dog, 6)]
       \<noteq> push_back_all [(Dog, 5), (Dog, 6)] (hetvec_default [Dog])
   \<and> hetvec_ctor [Dog, Car] [(Car, 7 :: nat), (Dog, 8)] = None
   \<and> push_back_all [(Car, 7 :: nat), (Dog, 8)] (hetvec_default [Dog, Car])
       = Some (Hetvec Dog [8] (Hetvec Car [7] HetvecNil))"
  by simp

text \<open>
  C5. Starting from the default-constructed (empty) collection, \<^verbatim>\<open>push_back\<close> of any
  \<open>N\<close> values of declared types succeeds and \<^verbatim>\<open>size()\<close> is \<open>N\<close> afterwards; and for every
  collection \<^verbatim>\<open>size()\<close> is the sum of the element counts of its partitions.
\<close>

theorem size_counts_insertions:
  assumes "fst ` set us \<subseteq> set Ts"
  shows "(\<exists>hv. push_back_all us (hetvec_default Ts) = Some hv \<and> size_hv hv = length us)
       \<and> size_hv hv0 = sum_list (map (\<lambda>p. length (snd p)) (partitions hv0))"
proof -
  obtain hv where 1: "push_back_all us (hetvec_default Ts) = Some hv"
    using push_back_all_declared [of us "hetvec_default Ts"] assms by auto
  have "size_hv hv = length us"
    using push_back_all_size [OF 1] by simp
  with 1 show ?thesis
    by (simp add: size_hv_partitions)
qed

theorem size_counts_insertions_witness:
  "fst ` set [(1, 7), (0, 8), (1, 9 :: nat)] \<subseteq> set [0 :: nat, 1]
   \<and> (\<exists>hv. push_back_all [(1, 7), (0, 8), (1, 9)] (hetvec_default [0, 1]) = Some hv
         \<and> size_hv hv = length [(1 :: nat, 7 :: nat), (0, 8), (1, 9)])
   \<and> size_hv (Hetvec (0 :: nat) [8 :: nat] (Hetvec 1 [7, 9] HetvecNil)) = 3"
  using size_counts_insertions [of "[(1, 7), (0, 8), (1, 9 :: nat)]" "[0 :: nat, 1]"
      "Hetvec (0 :: nat) [8 :: nat] (Hetvec 1 [7, 9] HetvecNil)"]
  by simp

text \<open>
  C9. For a collection over distinct types and a value \<open>x\<close> of the declared type \<open>T\<close> of
  partition \<open>i\<close>, \<^verbatim>\<open>push_back\<close> appends \<open>x\<close> at the end of partition \<open>i\<close>, leaves every
  other partition as it was, and \<^verbatim>\<open>size()\<close> grows by one.
\<close>

theorem push_back_appends_to_its_partition:
  assumes "distinct (types hv)" and "i < length (partitions hv)" and "partitions hv ! i = (T, P)"
  shows "\<exists>hv'. push_back (T, x) hv = Some hv'
           \<and> partitions hv' = (partitions hv)[i := (T, P @ [x])]
           \<and> size_hv hv' = size_hv hv + 1"
  using push_back_at [OF assms, of x] push_back_size by blast

theorem push_back_appends_to_its_partition_witness:
  "distinct (types (Hetvec (0 :: nat) [1 :: nat] (Hetvec 1 [2] HetvecNil)))
   \<and> 1 < length (partitions (Hetvec (0 :: nat) [1 :: nat] (Hetvec 1 [2] HetvecNil)))
   \<and> partitions (Hetvec (0 :: nat) [1 :: nat] (Hetvec 1 [2] HetvecNil)) ! 1 = (1, [2])
   \<and> (\<exists>hv'. push_back (1, 3) (Hetvec (0 :: nat) [1 :: nat] (Hetvec 1 [2] HetvecNil)) = Some hv'
         \<and> partitions hv' = [(0, [1]), (1, [2, 3])]
         \<and> size_hv hv' = 3)"
  using push_back_appends_to_its_partition
    [of "Hetvec (0 :: nat) [1 :: nat] (Hetvec 1 [2] HetvecNil)" 1 1 "[2]" 3]
  by simp

subsection \<open>Clearing\<close>

text \<open>
  C6. After \<^verbatim>\<open>clear()\<close> the collection is the default-constructed collection of the same
  type list (so every later operation behaves as on a freshly constructed one): every
  partition is empty, \<^verbatim>\<open>empty()\<close> is true, and a traversal with any visitor invokes no
  handler and leaves the world as it was.
\<close>

theorem clear_gives_the_empty_collection:
  "clear hv = hetvec_default (types hv)
   \<and> hetvec_ctor (types hv) [] = Some (clear hv)
   \<and> partitions (clear hv) = map (\<lambda>T. (T, [])) (types hv)
   \<and> empty_hv (clear hv)
   \<and> invocations fcns (clear hv) w = []
   \<and> perform fcns (clear hv, w) = (clear hv, w)"
  by (simp add: clear_default empty_hv_def invocations_all_calls perform_run partitions_default)

theorem clear_gives_the_empty_collection_witness:
  "clear (Hetvec Dog [(), ()] (Hetvec Car [()] HetvecNil)) = Hetvec Dog [] (Hetvec Car [] HetvecNil)
   \<and> partitions (clear (Hetvec Dog [(), ()] (Hetvec Car [()] HetvecNil))) = [(Dog, []), (Car, [])]
   \<and> empty_hv (clear (Hetvec Dog [(), ()] (Hetvec Car [()] HetvecNil)))
   \<and> invocations MyCustomBehaviour (clear (Hetvec Dog [(), ()] (Hetvec Car [()] HetvecNil))) [] = []
   \<and> snd (perform MyCustomBehaviour (clear (Hetvec Dog [(), ()] (Hetvec Car [()] HetvecNil)), [])) = []"
  using clear_gives_the_empty_collection
    [of "Hetvec Dog [(), ()] (Hetvec Car [()] HetvecNil)" MyCustomBehaviour "[]"]
  by simp

subsection \<open>The traversal\<close>

text \<open>
  C7. A traversal does not modify the collection: for every collection and every visitor
  (its handlers act on the world only, they cannot reach the collection), the object that
  \<^verbatim>\<open>perform\<close> hands back has the contents, in every partition, that it had before the
  call.
\<close>

theorem perform_leaves_collection_unchanged:
  "fst (perform fcns (hv, w)) = hv \<and> partitions (fst (perform fcns (hv, w))) = partitions hv"
  by (simp add: perform_run)

text \<open>
  C1. For a collection over distinct types, two partitions \<open>i < j\<close> with types \<open>Ti\<close>,
  \<open>Tj\<close> and contents \<open>Pi\<close>, \<open>Pj\<close>, and any visitor: the invocations of a traversal with
  argument types \<open>(Ti, Tj)\<close> are exactly one invocation \<open>(u, x)\<close> for every position of
  \<open>u\<close> in \<open>Pi\<close> and every position of \<open>x\<close> in \<open>Pj\<close>, and those with argument types
  \<open>(Tj, Ti)\<close> are exactly one invocation \<open>(x, u)\<close> for every such pair of positions. So
  there are \<open>mi * mj\<close> invocations in each direction and \<open>2 * mi * mj\<close> for the pair of
  types, and a pair of values is invoked in each direction as many times as it occurs as a
  pair of positions: once, when the elements are all different.
\<close>

theorem cross_pairs_twice_each:
  assumes "distinct (types hv)" and "i < j" and "j < length (partitions hv)"
    and "partitions hv ! i = (Ti, Pi)" and "partitions hv ! j = (Tj, Pj)"
  shows "filter (\<lambda>c. type_pair c = (Ti, Tj)) (invocations fcns hv w)
           = map (\<lambda>(u, x). ((Ti, u), (Tj, x))) (List.product Pi Pj)
       \<and> filter (\<lambda>c. type_pair c = (Tj, Ti)) (invocations fcns hv w)
           = map (\<lambda>(u, x). ((Tj, x), (Ti, u))) (List.product Pi Pj)
       \<and> length (filter (\<lambda>c. type_pair c = (Ti, Tj)) (invocations fcns hv w))
           = length Pi * length Pj
       \<and> length (filter (\<lambda>c. type_pair c = (Tj, Ti)) (invocations fcns hv w))
           = length Pi * length Pj
       \<and> length (filter (\<lambda>c. type_pair c = (Ti, Tj) \<or> type_pair c = (Tj, Ti))
                   (invocations fcns hv w))
           = 2 * length Pi * length Pj
       \<and> (\<forall>u x. count_list (invocations fcns hv w) ((Ti, u), (Tj, x))
                   = count_list Pi u * count_list Pj x
                \<and> count_list (invocations fcns hv w) ((Tj, x), (Ti, u))
                   = count_list Pi u * count_list Pj x)"
proof -
  let ?inv = "invocations fcns hv w"
  have inv: "?inv = all_calls hv" by (rule invocations_all_calls)
  have fwd: "filter (\<lambda>c. type_pair c = (Ti, Tj)) ?inv
      = map (\<lambda>(u, x). ((Ti, u), (Tj, x))) (List.product Pi Pj)"
    and bwd: "filter (\<lambda>c. type_pair c = (Tj, Ti)) ?inv
      = map (\<lambda>(u, x). ((Tj, x), (Ti, u))) (List.product Pi Pj)"
    using filter_all_calls_cross [OF assms] by (simp_all add: inv map_product_concat)
  have li: "i < length (types hv)" and lj: "j < length (types hv)"
    using assms(2,3) by (simp_all add: types_partitions)
  have ti: "types hv ! i = Ti" and tj: "types hv ! j = Tj"
    using li lj assms(4,5) by (simp_all add: types_partitions)
  have ne: "Ti \<noteq> Tj"
  proof
    assume "Ti = Tj"
    then have "types hv ! i = types hv ! j" using ti tj by simp
    then have "i = j"
      using nth_eq_iff_index_eq [OF assms(1) li lj] by simp
    with assms(2) show False by simp
  qed
  have len_fwd: "length (filter (\<lambda>c. type_pair c = (Ti, Tj)) ?inv) = length Pi * length Pj"
    and len_bwd: "length (filter (\<lambda>c. type_pair c = (Tj, Ti)) ?inv) = length Pi * length Pj"
    by (simp_all add: fwd bwd)
  have len_both: "length (filter (\<lambda>c. type_pair c = (Ti, Tj) \<or> type_pair c = (Tj, Ti)) ?inv)
      = 2 * length Pi * length Pj"
    using ne by (subst length_filter_disjoint) (auto simp: len_fwd len_bwd)
  have inj_fwd: "inj (\<lambda>(u, x). ((Ti, u), (Tj, x)))"
    and inj_bwd: "inj (\<lambda>(u, x). ((Tj, x), (Ti, u)))"
    by (auto simp: inj_on_def)
  have cnt: "count_list ?inv ((Ti, u), (Tj, x)) = count_list Pi u * count_list Pj x
      \<and> count_list ?inv ((Tj, x), (Ti, u)) = count_list Pi u * count_list Pj x" for u x
  proof -
    have "count_list ?inv ((Ti, u), (Tj, x))
        = count_list (filter (\<lambda>c. type_pair c = (Ti, Tj)) ?inv) ((Ti, u), (Tj, x))"
      by (simp add: count_list_filter type_pair_def)
    also have "\<dots> = count_list (List.product Pi Pj) (u, x)"
      unfolding fwd using count_list_map_inj [OF inj_fwd, of "List.product Pi Pj" "(u, x)"]
      by simp
    finally have 1: "count_list ?inv ((Ti, u), (Tj, x)) = count_list Pi u * count_list Pj x"
      by (simp add: count_list_product)
    have "count_list ?inv ((Tj, x), (Ti, u))
        = count_list (filter (\<lambda>c. type_pair c = (Tj, Ti)) ?inv) ((Tj, x), (Ti, u))"
      by (simp add: count_list_filter type_pair_def)
    also have "\<dots> = count_list (List.product Pi Pj) (u, x)"
      unfolding bwd using count_list_map_inj [OF inj_bwd, of "List.product Pi Pj" "(u, x)"]
      by simp
    finally have 2: "count_list ?inv ((Tj, x), (Ti, u)) = count_list Pi u * count_list Pj x"
      by (simp add: count_list_product)
    from 1 2 show ?thesis by simp
  qed
  from fwd bwd len_fwd len_bwd len_both cnt show ?thesis by blast
qed

theorem cross_pairs_twice_each_witness:
  "distinct (types (Hetvec Dog [5 :: nat, 6] (Hetvec Car [7] (Hetvec Foo [8, 9] HetvecNil))))
   \<and> (0 :: nat) < 2
   \<and> 2 < length (partitions (Hetvec Dog [5 :: nat, 6] (Hetvec Car [7] (Hetvec Foo [8, 9] HetvecNil))))
   \<and> partitions (Hetvec Dog [5 :: nat, 6] (Hetvec Car [7] (Hetvec Foo [8, 9] HetvecNil))) ! 0
       = (Dog, [5, 6])
   \<and> partitions (Hetvec Dog [5 :: nat, 6] (Hetvec Car [7] (Hetvec Foo [8, 9] HetvecNil))) ! 2
       = (Foo, [8, 9])
   \<and> filter (\<lambda>c. type_pair c = (Dog, Foo))
        (invocations (\<lambda>a b (s :: nat). s)
           (Hetvec Dog [5 :: nat, 6] (Hetvec Car [7] (Hetvec Foo [8, 9] HetvecNil))) 0)
       = [((Dog, 5), (Foo, 8)), ((Dog, 5), (Foo, 9)), ((Dog, 6), (Foo, 8)), ((Dog, 6), (Foo, 9))]
   \<and> filter (\<lambda>c. type_pair c = (Foo, Dog))
        (invocations (\<lambda>a b (s :: nat). s)
           (Hetvec Dog [5 :: nat, 6] (Hetvec Car [7] (Hetvec Foo [8, 9] HetvecNil))) 0)
       = [((Foo, 8), (Dog, 5)), ((Foo, 9), (Dog, 5)), ((Foo, 8), (Dog, 6)), ((Foo, 9), (Dog, 6))]
   \<and> length (filter (\<lambda>c. type_pair c = (Dog, Foo) \<or> type_pair c = (Foo, Dog))
        (invocations (\<lambda>a b (s :: nat). s)
           (Hetvec Dog [5 :: nat, 6] (Hetvec Car [7] (Hetvec Foo [8, 9] HetvecNil))) 0))
       = 8
   \<and> count_list
        (invocations (\<lambda>a b (s :: nat). s)
           (Hetvec Dog [5 :: nat, 6] (Hetvec Car [7] (Hetvec Foo [8, 9] HetvecNil))) 0)
        ((Foo, 9), (Dog, 5)) = 1"
proof -
  let ?hv = "Hetvec Dog [5 :: nat, 6] (Hetvec Car [7] (Hetvec Foo [8, 9] HetvecNil))"
  have h1: "distinct (types ?hv)" by simp
  have h2: "(0 :: nat) < 2" by simp
  have h3: "2 < length (partitions ?hv)" by simp
  have h4: "partitions ?hv ! 0 = (Dog, [5, 6])" by simp
  have h5: "partitions ?hv ! 2 = (Foo, [8, 9])" by simp
  note t = cross_pairs_twice_each [OF h1 h2 h3 h4 h5, of "\<lambda>a b (s :: nat). s" 0]
  from h1 h2 h3 h4 h5 t show ?thesis by simp
qed

text \<open>
  C2. For a collection over distinct types and its partition \<open>i\<close> of type \<open>T\<close> with
  contents \<open>v\<close>: the invocations of a traversal with argument types \<open>(T, T)\<close> are exactly
  one invocation \<open>(v[a], v[b])\<close> for every two positions \<open>a < b\<close>, the element stored first
  as first argument; there are \<open>C(mi, 2)\<close> of them; and when the elements of the partition
  are all different, each such pair is invoked once and never with its arguments swapped.
\<close>

theorem same_type_pairs_once_each:
  assumes "distinct (types hv)" and "i < length (partitions hv)" and "partitions hv ! i = (T, v)"
  shows "filter (\<lambda>c. type_pair c = (T, T)) (invocations fcns hv w)
           = concat (map (\<lambda>a. map (\<lambda>b. ((T, v ! a), (T, v ! b))) [a + 1..<length v])
                      [0..<length v])
       \<and> length (filter (\<lambda>c. type_pair c = (T, T)) (invocations fcns hv w)) = length v choose 2
       \<and> (distinct v \<longrightarrow>
            (\<forall>a b. a < b \<and> b < length v \<longrightarrow>
               count_list (invocations fcns hv w) ((T, v ! a), (T, v ! b)) = 1
               \<and> ((T, v ! b), (T, v ! a)) \<notin> set (invocations fcns hv w)))"
proof -
  let ?inv = "invocations fcns hv w"
  have same: "filter (\<lambda>c. type_pair c = (T, T)) ?inv = same_calls T v"
    using filter_all_calls_same [OF assms] by (simp add: invocations_all_calls)
  have 1: "filter (\<lambda>c. type_pair c = (T, T)) ?inv
      = concat (map (\<lambda>a. map (\<lambda>b. ((T, v ! a), (T, v ! b))) [a + 1..<length v]) [0..<length v])"
    using same by (simp add: same_calls_def)
  have 2: "length (filter (\<lambda>c. type_pair c = (T, T)) ?inv) = length v choose 2"
    using same by (simp add: length_same_calls)
  have 3: "count_list ?inv ((T, v ! a), (T, v ! b)) = 1
      \<and> ((T, v ! b), (T, v ! a)) \<notin> set ?inv"
    if "distinct v" and "a < b" and "b < length v" for a b
  proof -
    have "count_list ?inv ((T, v ! a), (T, v ! b))
        = count_list (filter (\<lambda>c. type_pair c = (T, T)) ?inv) ((T, v ! a), (T, v ! b))"
      by (simp add: count_list_filter type_pair_def)
    also have "\<dots> = 1"
      unfolding same
      using distinct_same_calls [OF that(1)] same_calls_member [OF that(2,3)]
      by (rule count_list_distinct)
    finally have c: "count_list ?inv ((T, v ! a), (T, v ! b)) = 1" .
    have "((T, v ! b), (T, v ! a)) \<notin> set (filter (\<lambda>c. type_pair c = (T, T)) ?inv)"
      unfolding same using that by (rule same_calls_not_mirrored)
    then have "((T, v ! b), (T, v ! a)) \<notin> set ?inv"
      by (simp add: type_pair_def)
    with c show ?thesis by simp
  qed
  from 1 2 3 show ?thesis by blast
qed

theorem same_type_pairs_once_each_witness:
  "distinct (types (Hetvec Dog [5 :: nat, 6, 7] (Hetvec Car [8] HetvecNil)))
   \<and> 0 < length (partitions (Hetvec Dog [5 :: nat, 6, 7] (Hetvec Car [8] HetvecNil)))
   \<and> partitions (Hetvec Dog [5 :: nat, 6, 7] (Hetvec Car [8] HetvecNil)) ! 0 = (Dog, [5, 6, 7])
   \<and> filter (\<lambda>c. type_pair c = (Dog, Dog))
        (invocations (\<lambda>a b (s :: nat). s) (Hetvec Dog [5 :: nat, 6, 7] (Hetvec Car [8] HetvecNil)) 0)
       = [((Dog, 5), (Dog, 6)), ((Dog, 5), (Dog, 7)), ((Dog, 6), (Dog, 7))]
   \<and> length (filter (\<lambda>c. type_pair c = (Dog, Dog))
        (invocations (\<lambda>a b (s :: nat). s) (Hetvec Dog [5 :: nat, 6, 7] (Hetvec Car [8] HetvecNil)) 0))
       = 3
   \<and> distinct [5 :: nat, 6, 7]
   \<and> count_list
        (invocations (\<lambda>a b (s :: nat). s) (Hetvec Dog [5 :: nat, 6, 7] (Hetvec Car [8] HetvecNil)) 0)
        ((Dog, 5), (Dog, 7)) = 1
   \<and> ((Dog, 7), (Dog, 5))
       \<notin> set (invocations (\<lambda>a b (s :: nat). s)
                (Hetvec Dog [5 :: nat, 6, 7] (Hetvec Car [8] HetvecNil)) 0)"
proof -
  let ?hv = "Hetvec Dog [5 :: nat, 6, 7] (Hetvec Car [8] HetvecNil)"
  let ?inv = "invocations (\<lambda>a b (s :: nat). s) ?hv 0"
  have h1: "distinct (types ?hv)" by simp
  have h2: "0 < length (partitions ?hv)" by simp
  have h3: "partitions ?hv ! 0 = (Dog, [5, 6, 7])" by simp
  have d: "distinct [5 :: nat, 6, 7]" by simp
  note t = same_type_pairs_once_each [OF h1 h2 h3, of "\<lambda>a b (s :: nat). s" 0]
  have 1: "filter (\<lambda>c. type_pair c = (Dog, Dog)) ?inv
      = [((Dog, 5), (Dog, 6)), ((Dog, 5), (Dog, 7)), ((Dog, 6), (Dog, 7))]"
    using t by (simp add: upt_conv_Cons)
  have 2: "length (filter (\<lambda>c. type_pair c = (Dog, Dog)) ?inv) = 3"
    using 1 by simp
  have "(0 :: nat) < 2 \<and> 2 < length [5 :: nat, 6, 7]" by simp
  with t d have "count_list ?inv ((Dog, [5 :: nat, 6, 7] ! 0), (Dog, [5, 6, 7] ! 2)) = 1
      \<and> ((Dog, [5 :: nat, 6, 7] ! 2), (Dog, [5, 6, 7] ! 0)) \<notin> set ?inv"
    by blast
  then have 3: "count_list ?inv ((Dog, 5), (Dog, 7)) = 1 \<and> ((Dog, 7), (Dog, 5)) \<notin> set ?inv"
    by simp
  from h1 h2 h3 1 2 d 3 show ?thesis by (intro conjI) simp_all
qed

text \<open>
  C10. For a collection over distinct types and two partitions \<open>i < j\<close>: for every element
  \<open>u\<close> of the earlier partition and \<open>x\<close> of the later one, the invocation \<open>f(x, u)\<close> occurs
  in the traversal and \<open>f(u, x)\<close> is the next invocation after it. Every invocation with
  the later declared type first is followed at once by the invocation with its arguments
  swapped, and every invocation with the earlier declared type first comes directly after
  the invocation with its arguments swapped.
\<close>

theorem mirrored_invocations_adjacent:
  assumes "distinct (types hv)" and "i < j" and "j < length (partitions hv)"
    and "partitions hv ! i = (Ti, Pi)" and "partitions hv ! j = (Tj, Pj)"
  shows "(\<forall>u \<in> set Pi. \<forall>x \<in> set Pj. \<exists>k. Suc k < length (invocations fcns hv w)
            \<and> invocations fcns hv w ! k = ((Tj, x), (Ti, u))
            \<and> invocations fcns hv w ! Suc k = ((Ti, u), (Tj, x)))
       \<and> (\<forall>k < length (invocations fcns hv w).
            type_pair (invocations fcns hv w ! k) = (Tj, Ti) \<longrightarrow>
            Suc k < length (invocations fcns hv w)
            \<and> invocations fcns hv w ! Suc k
                = (snd (invocations fcns hv w ! k), fst (invocations fcns hv w ! k)))
       \<and> (\<forall>k < length (invocations fcns hv w).
            type_pair (invocations fcns hv w ! k) = (Ti, Tj) \<longrightarrow>
            (\<exists>l. k = Suc l
               \<and> invocations fcns hv w ! l
                   = (snd (invocations fcns hv w ! k), fst (invocations fcns hv w ! k))))"
proof -
  let ?inv = "invocations fcns hv w"
  have inv: "?inv = all_calls hv" by (rule invocations_all_calls)
  have p: "paired (types hv) ?inv"
    unfolding inv using assms(1) by (rule paired_all_calls)
  have li: "i < length (types hv)" and lj: "j < length (types hv)"
    using assms(2,3) by (simp_all add: types_partitions)
  have ti: "types hv ! i = Ti" and tj: "types hv ! j = Tj"
    using li lj assms(4,5) by (simp_all add: types_partitions)
  have b: "before (types hv) Ti Tj"
    using before_nth [OF assms(2) lj] ti tj by simp
  have later: "Suc k < length ?inv \<and> ?inv ! Suc k = (snd (?inv ! k), fst (?inv ! k))"
    if "k < length ?inv" and "type_pair (?inv ! k) = (Tj, Ti)" for k
  proof -
    from that(2) have "before (types hv) (fst (snd (?inv ! k))) (fst (fst (?inv ! k)))"
      using b by (simp add: type_pair_def)
    then show ?thesis using paired_later_first [OF p assms(1) that(1)] by simp
  qed
  have earlier: "\<exists>l. k = Suc l \<and> ?inv ! l = (snd (?inv ! k), fst (?inv ! k))"
    if "k < length ?inv" and "type_pair (?inv ! k) = (Ti, Tj)" for k
  proof -
    from that(2) have "before (types hv) (fst (fst (?inv ! k))) (fst (snd (?inv ! k)))"
      using b by (simp add: type_pair_def)
    then show ?thesis using paired_earlier_first [OF p assms(1) that(1)] by simp
  qed
  have ex: "\<exists>k. Suc k < length ?inv \<and> ?inv ! k = ((Tj, x), (Ti, u))
      \<and> ?inv ! Suc k = ((Ti, u), (Tj, x))"
    if "u \<in> set Pi" and "x \<in> set Pj" for u x
  proof -
    have "((Tj, x), (Ti, u)) \<in> set (concat (map (\<lambda>u. map (\<lambda>x. ((Tj, x), (Ti, u))) Pj) Pi))"
      using that by auto
    then have "((Tj, x), (Ti, u)) \<in> set (filter (\<lambda>c. type_pair c = (Tj, Ti)) ?inv)"
      using filter_all_calls_cross [OF assms] by (simp only: inv)
    then have "((Tj, x), (Ti, u)) \<in> set ?inv" by simp
    then obtain k where k: "k < length ?inv" "?inv ! k = ((Tj, x), (Ti, u))"
      by (auto simp: in_set_conv_nth)
    then have "type_pair (?inv ! k) = (Tj, Ti)" by (simp add: type_pair_def)
    from later [OF k(1) this] k show ?thesis by auto
  qed
  show ?thesis
  proof (intro conjI ballI allI impI)
    fix u x assume "u \<in> set Pi" and "x \<in> set Pj"
    then show "\<exists>k. Suc k < length ?inv \<and> ?inv ! k = ((Tj, x), (Ti, u))
        \<and> ?inv ! Suc k = ((Ti, u), (Tj, x))"
      by (rule ex)
  next
    fix k assume "k < length ?inv" and "type_pair (?inv ! k) = (Tj, Ti)"
    then show "Suc k < length ?inv" and "?inv ! Suc k = (snd (?inv ! k), fst (?inv ! k))"
      using later by simp_all
  next
    fix k assume "k < length ?inv" and "type_pair (?inv ! k) = (Ti, Tj)"
    then show "\<exists>l. k = Suc l \<and> ?inv ! l = (snd (?inv ! k), fst (?inv ! k))"
      by (rule earlier)
  qed
qed

theorem mirrored_invocations_adjacent_witness:
  "distinct (types (Hetvec Dog [5 :: nat, 6] (Hetvec Car [7] HetvecNil)))
   \<and> (0 :: nat) < 1
   \<and> 1 < length (partitions (Hetvec Dog [5 :: nat, 6] (Hetvec Car [7] HetvecNil)))
   \<and> partitions (Hetvec Dog [5 :: nat, 6] (Hetvec Car [7] HetvecNil)) ! 0 = (Dog, [5, 6])
   \<and> partitions (Hetvec Dog [5 :: nat, 6] (Hetvec Car [7] HetvecNil)) ! 1 = (Car, [7])
   \<and> invocations (\<lambda>a b (s :: nat). s) (Hetvec Dog [5 :: nat, 6] (Hetvec Car [7] HetvecNil)) 0
       = [((Dog, 5), (Dog, 6)), ((Car, 7), (Dog, 5)), ((Dog, 5), (Car, 7)), ((Car, 7), (Dog, 6)), ((Dog, 6), (Car, 7))]
   \<and> (\<exists>k. Suc k < length (invocations (\<lambda>a b (s :: nat). s)
                (Hetvec Dog [5 :: nat, 6] (Hetvec Car [7] HetvecNil)) 0)
         \<and> invocations (\<lambda>a b (s :: nat). s)
              (Hetvec Dog [5 :: nat, 6] (Hetvec Car [7] HetvecNil)) 0 ! k = ((Car, 7), (Dog, 6))
         \<and> invocations (\<lambda>a b (s :: nat). s)
              (Hetvec Dog [5 :: nat, 6] (Hetvec Car [7] HetvecNil)) 0 ! Suc k = ((Dog, 6), (Car, 7)))
   \<and> invocations (\<lambda>a b (s :: nat). s)
        (Hetvec Dog [5 :: nat, 6] (Hetvec Car [7] HetvecNil)) 0 ! Suc 1
       = (snd (invocations (\<lambda>a b (s :: nat). s)
                (Hetvec Dog [5 :: nat, 6] (Hetvec Car [7] HetvecNil)) 0 ! 1),
          fst (invocations (\<lambda>a b (s :: nat). s)
                (Hetvec Dog [5 :: nat, 6] (Hetvec Car [7] HetvecNil)) 0 ! 1))
   \<and> (\<exists>l. 4 = Suc l
         \<and> invocations (\<lambda>a b (s :: nat). s)
              (Hetvec Dog [5 :: nat, 6] (Hetvec Car [7] HetvecNil)) 0 ! l
           = (snd (invocations (\<lambda>a b (s :: nat). s)
                (Hetvec Dog [5 :: nat, 6] (Hetvec Car [7] HetvecNil)) 0 ! 4),
              fst (invocations (\<lambda>a b (s :: nat). s)
                (Hetvec Dog [5 :: nat, 6] (Hetvec Car [7] HetvecNil)) 0 ! 4)))"
proof -
  let ?hv = "Hetvec Dog [5 :: nat, 6] (Hetvec Car [7] HetvecNil)"
  let ?inv = "invocations (\<lambda>a b (s :: nat). s) ?hv 0"
  have h1: "distinct (types ?hv)" by simp
  have h2: "(0 :: nat) < 1" by simp
  have h3: "1 < length (partitions ?hv)" by simp
  have h4: "partitions ?hv ! 0 = (Dog, [5, 6])" by simp
  have h5: "partitions ?hv ! 1 = (Car, [7])" by simp
  have tr: "?inv
      = [((Dog, 5), (Dog, 6)), ((Car, 7), (Dog, 5)), ((Dog, 5), (Car, 7)), ((Car, 7), (Dog, 6)), ((Dog, 6), (Car, 7))]"
    by code_simp
  note t = mirrored_invocations_adjacent [OF h1 h2 h3 h4 h5, of "\<lambda>a b (s :: nat). s" 0]
  have a: "\<exists>k. Suc k < length ?inv \<and> ?inv ! k = ((Car, 7), (Dog, 6)) \<and> ?inv ! Suc k = ((Dog, 6), (Car, 7))"
    using t by simp
  have k1: "1 < length ?inv" and p1: "type_pair (?inv ! 1) = (Car, Dog)"
    by (simp_all add: tr type_pair_def)
  have b: "?inv ! Suc 1 = (snd (?inv ! 1), fst (?inv ! 1))"
    using t k1 p1 by blast
  have k4: "4 < length ?inv" and p4: "type_pair (?inv ! 4) = (Dog, Car)"
    by (simp_all add: tr type_pair_def)
  have c: "\<exists>l. 4 = Suc l \<and> ?inv ! l = (snd (?inv ! 4), fst (?inv ! 4))"
    using t k4 p4 by blast
  from h1 h2 h3 h4 h5 tr a b c show ?thesis by (intro conjI)
qed

text \<open>
  C8. The sequence of invocations of a traversal is determined by the collection: it is
  the same from every state of the world and for every visitor run on that collection, and
  two traversals in a row with one visitor make the same invocations, with the same
  arguments in the same order. What a traversal does to the world is what the handlers do,
  run in the order of that sequence.
\<close>

theorem perform_is_deterministic:
  "invocations fcns hv w = invocations fcns hv w'
   \<and> invocations fcns hv w = invocations fcns' hv w''
   \<and> (let (hv1, w1, tr1) = perform (traced fcns) (hv, w, []);
           (hv2, w2, tr2) = perform (traced fcns) (hv1, w1, [])
       in tr1 = tr2 \<and> tr1 = invocations fcns hv w)
   \<and> perform fcns (hv, w) = (hv, run_calls fcns (invocations fcns hv w) w)"
  by (simp add: invocations_all_calls perform_run run_calls_traced)

text \<open>
  C3. The program of \<^verbatim>\<open>example.cpp\<close>: the collection over Dog, Car, Foo, Bar constructed
  with two dogs, a car and a bar, then a foo inserted. The traversal with
  \<^verbatim>\<open>MyCustomBehaviour\<close> prints "Two dogs are barking!" once, "A car hit the dog, oh no!"
  twice and "Foobar!" once, and nothing else; the whole program prints these four lines
  and then "hv is empty!". The traversal makes 19 invocations; the four that print are the
  ones on the argument types of the three handlers, and the other 15 reach the fallback.
\<close>

theorem example_traversal_output:
  "hetvec_ctor [Dog, Car, Foo, Bar] [(Dog, ()), (Dog, ()), (Car, ()), (Bar, ())]
     = Some (Hetvec Dog [(), ()] (Hetvec Car [()] (Hetvec Foo [] (Hetvec Bar [()] HetvecNil))))
   \<and> push_back (Foo, ())
       (Hetvec Dog [(), ()] (Hetvec Car [()] (Hetvec Foo [] (Hetvec Bar [()] HetvecNil))))
     = Some (Hetvec Dog [(), ()] (Hetvec Car [()] (Hetvec Foo [()] (Hetvec Bar [()] HetvecNil))))
   \<and> snd (perform MyCustomBehaviour
       (Hetvec Dog [(), ()] (Hetvec Car [()] (Hetvec Foo [()] (Hetvec Bar [()] HetvecNil))), []))
     = [''Two dogs are barking!\<newline>'', ''A car hit the dog, oh no!\<newline>'',
        ''A car hit the dog, oh no!\<newline>'', ''Foobar!\<newline>'']
   \<and> main = Some [''Two dogs are barking!\<newline>'', ''A car hit the dog, oh no!\<newline>'',
        ''A car hit the dog, oh no!\<newline>'', ''Foobar!\<newline>'', ''hv is empty!\<newline>'']
   \<and> length (invocations MyCustomBehaviour
       (Hetvec Dog [(), ()] (Hetvec Car [()] (Hetvec Foo [()] (Hetvec Bar [()] HetvecNil)))) [])
     = 19
   \<and> length (filter (\<lambda>c. type_pair c \<in> {(Dog, Dog), (Dog, Car), (Bar, Foo)})
       (invocations MyCustomBehaviour
         (Hetvec Dog [(), ()] (Hetvec Car [()] (Hetvec Foo [()] (Hetvec Bar [()] HetvecNil)))) []))
     = 4"
  by code_simp

end
